theory Spec2Isabelle
  imports Main "HOL-Library.AList"
begin

section \<open>Errors raised by the modelled code\<close>

text \<open>
  Every \<^verbatim>\<open>raise\<close> of the modelled Python is a value: \<open>Inl e\<close> of a result type
  \<open>error + 'a\<close>. \<open>OtherError\<close> stands for any exception class the modelled code neither
  raises itself nor catches (a permission error of \<^verbatim>\<open>open\<close>, a decoding error of a loader).
\<close>

datatype error =
    ZeroDivisionError
  | AttributeError string
  | FileNotFoundError
  | RecipeError string
  | SystemExit
  | OtherError string

section \<open>Strings and paths\<close>

text \<open>\<^verbatim>\<open>str(n)\<close> of a Python integer: its decimal digits, with a minus sign when negative.\<close>

definition digit_char :: "nat \<Rightarrow> char" where
  "digit_char d = ''0123456789'' ! d"

fun str_nat :: "nat \<Rightarrow> string" where
  "str_nat n = (if n < 10 then [digit_char n] else str_nat (n div 10) @ [digit_char (n mod 10)])"

declare str_nat.simps [simp del]

definition str_int :: "int \<Rightarrow> string" where
  "str_int i = (if i < 0 then CHR ''-'' # str_nat (nat (- i)) else str_nat (nat i))"

text \<open>\<^verbatim>\<open>sep.join(xs)\<close>.\<close>

fun join_str :: "string \<Rightarrow> string list \<Rightarrow> string" where
  "join_str sep [] = []"
| "join_str sep [x] = x"
| "join_str sep (x # y # ys) = x @ sep @ join_str sep (y # ys)"

text \<open>
  \<^verbatim>\<open>pathlib\<close> paths of the POSIX flavour: a root flag and the list of components. The
  operations are the lexical ones of \<^verbatim>\<open>PurePosixPath\<close>: \<^verbatim>\<open>parent\<close> drops the last
  component (the parent of the root, and of \<^verbatim>\<open>.\<close>, is itself), the operator \<^verbatim>\<open>/\<close> appends
  the components of its right operand unless that operand is rooted, in which case it replaces
  the left one. A string operand is parsed first: split at \<^verbatim>\<open>/\<close>, empty and \<^verbatim>\<open>.\<close> components
  dropped. (The implementation-defined root of exactly two leading slashes is not modelled.)
\<close>

datatype path = Path (anchored: bool) (parts: "string list")

fun split_on :: "char \<Rightarrow> string \<Rightarrow> string list" where
  "split_on sep [] = [[]]"
| "split_on sep (c # cs) =
     (if c = sep then [] # split_on sep cs
      else (case split_on sep cs of
              [] \<Rightarrow> [[c]]
            | w # ws \<Rightarrow> (c # w) # ws))"

definition parse_path :: "string \<Rightarrow> path" where
  "parse_path s =
     Path (s \<noteq> [] \<and> hd s = CHR ''/'')
          (filter (\<lambda>c. c \<noteq> [] \<and> c \<noteq> ''.'') (split_on (CHR ''/'') s))"

definition parent :: "path \<Rightarrow> path" where
  "parent p = Path (anchored p) (butlast (parts p))"

definition joinpath :: "path \<Rightarrow> path \<Rightarrow> path" where
  "joinpath p q = (if anchored q then q else Path (anchored p) (parts p @ parts q))"


definition str_path :: "path \<Rightarrow> string" where
  "str_path p =
     (if anchored p then CHR ''/'' # join_str ''/'' (parts p)
      else if parts p = [] then ''.''
      else join_str ''/'' (parts p))"

section \<open>The module runtime: \<^verbatim>\<open>haddock/modules/__init__.py\<close>\<close>

text \<open>
  The three constants imported from \<^verbatim>\<open>haddock.defaults\<close> (a module that is not among the
  sources) are parameters of the model.
\<close>

record constants =
  MODULE_PATH_NAME :: string
  MODULE_IO_FILE :: string
  TOPOLOGY_PATH :: string

text \<open>
  \<^verbatim>\<open>ModuleIO\<close> (of \<^verbatim>\<open>haddock.ontology\<close>, not among the sources) is the manifest of a step:
  the artifact references it holds. \<^verbatim>\<open>ModuleIO()\<close> is the empty manifest; \<^verbatim>\<open>io.load(f)\<close>
  replaces its content by what the file \<^verbatim>\<open>f\<close> holds, which is a parameter of the
  environment below, as is every other access to the file system.
\<close>

type_synonym module_io = "string list"

definition ModuleIO :: module_io where
  "ModuleIO = []"

type_synonym toml = "(string \<times> string) list"

record env =
  cwd :: path
  resolve :: "path \<Rightarrow> path"
  is_file :: "path \<Rightarrow> bool"
  io_load :: "path \<Rightarrow> error + module_io"
  open_read :: "path \<Rightarrow> error + string"
  toml_load :: "path \<Rightarrow> error + toml"

text \<open>\<^verbatim>\<open>Path.absolute()\<close>: a path that is not rooted is joined to the working directory.\<close>

definition absolute :: "env \<Rightarrow> path \<Rightarrow> path" where
  "absolute E p = (if anchored p then p else joinpath (cwd E) p)"

text \<open>
  An instance of \<^verbatim>\<open>BaseHaddockModule\<close>. An attribute that \<^verbatim>\<open>__init__\<close> has not assigned
  (yet, or at all) is \<open>None\<close>; reading it raises \<^verbatim>\<open>AttributeError\<close>.
\<close>

record module =
  order :: int
  path :: path
  previous_io :: "module_io option"
  cns_folder_path :: "path option"
  cns_recipe_path :: "path option"
  defaults_path :: "path option"
  recipe_str :: "string option"
  defaults :: "toml option"

definition previous_path :: "constants \<Rightarrow> env \<Rightarrow> module \<Rightarrow> path" where
  "previous_path K E self =
     (if order self > 1 then
        joinpath (absolute E (parent (resolve E (path self))))
                 (parse_path (MODULE_PATH_NAME K @ str_int (order self - 1)))
      else if order self = 1 then
        joinpath (absolute E (parent (resolve E (path self)))) (parse_path (TOPOLOGY_PATH K))
      else path self)"

definition load_previous_io :: "constants \<Rightarrow> env \<Rightarrow> module \<Rightarrow> error + module_io" where
  "load_previous_io K E self =
     (if order self = 0 then Inr ModuleIO
      else
        let io = ModuleIO;
            previous_io = joinpath (previous_path K E self) (parse_path (MODULE_IO_FILE K))
        in if is_file E previous_io
           then (case io_load E previous_io of Inl e \<Rightarrow> Inl e | Inr loaded \<Rightarrow> Inr loaded)
           else Inr io)"

text \<open>
  \<^verbatim>\<open>__init__(self, order, path, cns_script="", cns_defaults="")\<close>. The two optional
  arguments are paths; \<open>None\<close> is the falsy default \<^verbatim>\<open>""\<close>, for which the \<^verbatim>\<open>if\<close> leaves the
  attribute unassigned. Only \<^verbatim>\<open>FileNotFoundError\<close> is caught and turned into
  \<^verbatim>\<open>RecipeError\<close>; every other exception propagates.
\<close>

definition new_module :: "int \<Rightarrow> path \<Rightarrow> module" where
  "new_module ord p =
     \<lparr>order = ord, path = p, previous_io = None, cns_folder_path = None,
      cns_recipe_path = None, defaults_path = None, recipe_str = None, defaults = None\<rparr>"

definition init :: "constants \<Rightarrow> env \<Rightarrow> int \<Rightarrow> path \<Rightarrow> path option \<Rightarrow> path option \<Rightarrow> error + module" where
  "init K E ord p cns_script cns_defaults =
     (let self = new_module ord p in
      case load_previous_io K E self of
        Inl e \<Rightarrow> Inl e
      | Inr io \<Rightarrow>
          let self = self\<lparr>previous_io := Some io\<rparr>;
              self = (case cns_script of
                        None \<Rightarrow> self
                      | Some script \<Rightarrow>
                          self\<lparr>cns_folder_path := Some (absolute E (parent (resolve E script))),
                               cns_recipe_path := Some script\<rparr>);
              self = (case cns_defaults of
                        None \<Rightarrow> self
                      | Some d \<Rightarrow> self\<lparr>defaults_path := Some d\<rparr>)
          in case cns_recipe_path self of
               None \<Rightarrow> Inl (AttributeError ''cns_recipe_path'')
             | Some recipe \<Rightarrow>
                 (case open_read E recipe of
                    Inl FileNotFoundError \<Rightarrow>
                      Inl (RecipeError (''Error while opening recipe '' @ str_path recipe))
                  | Inl e \<Rightarrow> Inl e
                  | Inr text \<Rightarrow>
                      let self = self\<lparr>recipe_str := Some text\<rparr>
                      in case defaults_path self of
                           None \<Rightarrow> Inl (AttributeError ''defaults_path'')
                         | Some dpath \<Rightarrow>
                             (case toml_load E dpath of
                                Inl FileNotFoundError \<Rightarrow>
                                  Inl (RecipeError (''Error while opening defaults '' @ str_path dpath))
                              | Inl e \<Rightarrow> Inl e
                              | Inr loaded \<Rightarrow> Inr (self\<lparr>defaults := Some loaded\<rparr>))))"

text \<open>
  The file that \<^verbatim>\<open>_load_previous_io\<close> probes: \<^verbatim>\<open>self.previous_path() / MODULE_IO_FILE\<close>.
\<close>

definition manifest_file :: "constants \<Rightarrow> env \<Rightarrow> module \<Rightarrow> path" where
  "manifest_file K E self = joinpath (previous_path K E self) (parse_path (MODULE_IO_FILE K))"

subsection \<open>\<^verbatim>\<open>finish_with_error\<close> and the log\<close>






section \<open>The alascan step: \<^verbatim>\<open>haddock/modules/analysis/alascan/__init__.py\<close>\<close>

subsection \<open>Distribution of models among cores: \<^verbatim>\<open>get_index_list\<close>\<close>

text \<open>
  \<^verbatim>\<open>get_index_list(nmodels, ncores)\<close> of \<^verbatim>\<open>haddock/modules/analysis/alascan/__init__.py\<close>.
  The body of the \<^verbatim>\<open>for core in range(ncores)\<close> loop appends
  \<^verbatim>\<open>index_list[-1] + spc + 1\<close> or \<^verbatim>\<open>index_list[-1] + spc\<close>; the list starts as
  \<^verbatim>\<open>[0]\<close> and only grows, so \<^verbatim>\<open>index_list[-1]\<close> is always its last element.
  Python's \<^verbatim>\<open>//\<close> and \<^verbatim>\<open>%\<close> on integers are floor division and the remainder with the
  sign of the divisor, as \<open>div\<close> and \<open>mod\<close> on \<open>int\<close>; both raise on a zero divisor.
\<close>

fun index_loop :: "int \<Rightarrow> int \<Rightarrow> nat list \<Rightarrow> int list \<Rightarrow> int list" where
  "index_loop spc rem [] index_list = index_list"
| "index_loop spc rem (core # cores) index_list =
     index_loop spc rem cores
       (if int core < rem
        then index_list @ [last index_list + spc + 1]
        else index_list @ [last index_list + spc])"

definition get_index_list :: "int \<Rightarrow> int \<Rightarrow> error + int list" where
  "get_index_list nmodels ncores =
     (if ncores = 0 then Inl ZeroDivisionError
      else let spc = nmodels div ncores;
               rem = nmodels mod ncores
           in Inr (index_loop spc rem [0..<nat ncores] [0]))"

text \<open>
  The closed form of the \<open>k\<close>-th boundary that \<open>get_index_list\<close> computes: \<open>k\<close> blocks of
  \<open>spc\<close> units plus one extra unit for each of the first \<open>rem\<close> workers below \<open>k\<close>.
\<close>

definition boundary :: "int \<Rightarrow> int \<Rightarrow> nat \<Rightarrow> int" where
  "boundary spc rem k = int k * spc + min (int k) rem"

subsection \<open>\<^verbatim>\<open>HaddockModule._run\<close>\<close>









section \<open>Queue back end helpers: \<^verbatim>\<open>haddock.libs.libhpc\<close>\<close>

text \<open>
  Modelled from the spec: \<^verbatim>\<open>to_torque_time\<close> of \<^verbatim>\<open>haddock/libs/libhpc.py\<close>, which is not among
  the sources (only \<^verbatim>\<open>tests/test_libhpc.py\<close> is). Spec 4.3: "A helper must convert a duration
  given in minutes into the queue's HH:MM:SS-style wall-time-limit token, correctly carrying
  hours past 99 without truncation". Hours and minutes are written in decimal, padded with a
  zero to two digits; the seconds are always \<^verbatim>\<open>00\<close>.
\<close>

definition pad2 :: "nat \<Rightarrow> string" where
  "pad2 n = (if n < 10 then CHR ''0'' # str_nat n else str_nat n)"

definition to_torque_time :: "nat \<Rightarrow> string" where
  "to_torque_time minutes = pad2 (minutes div 60) @ '':'' @ pad2 (minutes mod 60) @ '':00''"

text \<open>
  Modelled from the spec: \<^verbatim>\<open>extract_slurm_status\<close> and \<^verbatim>\<open>JOB_STATUS_DIC\<close> of
  \<^verbatim>\<open>haddock/libs/libhpc.py\<close>, not among the sources. Spec 4.3: polling "must parse free-form,
  table-like text output into a small closed set of states: {running, pending, error,
  completed/unknown}. Parsing must tolerate the "job id not found" case (historically purged
  from the queue) and map it to a terminal state rather than an infinite poll loop"; malformed
  output is a query failure. The status is the word that follows the first \<^verbatim>\<open>JobState=\<close> of
  the text; the message of the status tool for an unknown job id gives \<^verbatim>\<open>ERROR\<close>. The
  dictionary sends a status word to its class in the closed set; the entries for
  \<^verbatim>\<open>RUNNING\<close> and \<^verbatim>\<open>ERROR\<close> are the two that \<^verbatim>\<open>tests/test_libhpc.py\<close> reads.
\<close>

definition word_chars :: string where
  "word_chars = ''abcdefghijklmnopqrstuvwxyzABCDEFGHIJKLMNOPQRSTUVWXYZ0123456789_''"

definition is_word_char :: "char \<Rightarrow> bool" where
  "is_word_char c = (c \<in> set word_chars)"

fun starts_with :: "string \<Rightarrow> string \<Rightarrow> bool" where
  "starts_with [] s = True"
| "starts_with (p # ps) [] = False"
| "starts_with (p # ps) (c # cs) = (p = c \<and> starts_with ps cs)"

text \<open>The text that follows the first occurrence of \<open>needle\<close>, if there is one.\<close>

fun find_after :: "string \<Rightarrow> string \<Rightarrow> string option" where
  "find_after needle [] = (if needle = [] then Some [] else None)"
| "find_after needle (c # cs) =
     (if starts_with needle (c # cs) then Some (drop (length needle) (c # cs))
      else find_after needle cs)"

datatype query_error = BackendQueryError

definition extract_slurm_status :: "string \<Rightarrow> query_error + string" where
  "extract_slurm_status slurm_out =
     (if find_after ''Invalid job id specified'' slurm_out \<noteq> None then Inr ''ERROR''
      else case find_after ''JobState='' slurm_out of
             None \<Rightarrow> Inl BackendQueryError
           | Some rest \<Rightarrow> Inr (takeWhile is_word_char rest))"

definition JOB_STATUS_DIC :: "(string \<times> string) list" where
  "JOB_STATUS_DIC =
     [(''RUNNING'', ''running''), (''PENDING'', ''pending''),
      (''ERROR'', ''error''), (''COMPLETED'', ''completed'')]"

text \<open>
  Modelled from the spec: the states in which the scheduler polls a job again (spec 4.4: it
  polls until every job is terminal); every other state ends the polling.
\<close>

definition polls_again :: "string \<Rightarrow> bool" where
  "polls_again state = (state = ''running'' \<or> state = ''pending'')"

text \<open>
  The two fixtures of \<^verbatim>\<open>tests/test_libhpc.py\<close>. The first is a text of 29 lines, each ended
  by a newline; it is given as the lines before the one that holds the job state, that line,
  and the lines after it.
\<close>

definition text_of_lines :: "string list \<Rightarrow> string" where
  "text_of_lines ls = concat (map (\<lambda>l. l @ [CHR 0x0A]) ls)"

definition scontrol_head :: "string list" where
  "scontrol_head =
     [''JobId=42909924 JobName=proabc2.job'',
      ''   UserId=enmr(1095) GroupId=users(100) MCS_label=N/A'',
      ''   Priority=1 Nice=0 Account=(null) QOS=normal'']"

definition scontrol_state_line :: string where
  "scontrol_state_line = ''   JobState=RUNNING Reason=None Dependency=(null)''"

definition scontrol_tail :: "string list" where
  "scontrol_tail =
     [''   Requeue=1 Restarts=0 BatchFlag=1 Reboot=0 ExitCode=0:0'',
      ''   DerivedExitCode=0:0'',
      ''   RunTime=00:00:01 TimeLimit=04:00:00 TimeMin=N/A'',
      ''   SubmitTime=2023-10-17T10:03:01 EligibleTime=2023-10-17T10:03:01'',
      ''   AccrueTime=2023-10-17T10:03:01'',
      ''   StartTime=2023-10-17T10:03:02 EndTime=2023-10-17T14:03:02 Deadline=N/A'',
      ''   PreemptTime=None SuspendTime=None SecsPreSuspend=0'',
      ''   LastSchedEval=2023-10-17T10:03:02'',
      ''   Partition=short AllocNode:Sid=bianca:124111'',
      ''   ReqNodeList=(null) ExcNodeList=(null)'',
      ''   NodeList=node011'',
      ''   BatchHost=node011'',
      ''   NumNodes=1 NumCPUs=1 NumTasks=1 CPUs/Task=1 ReqB:S:C:T=0:0:*:*'',
      ''   TRES=cpu=1,node=1,billing=1'',
      ''   Socks/Node=* NtasksPerN:B:S:C=0:0:*:* CoreSpec=*'',
      ''     Nodes=node011 CPU_IDs=4 Mem=0 GRES_IDX='',
      ''   MinCPUsNode=1 MinMemoryNode=0 MinTmpDiskNode=0'',
      ''   Features=(null) DelayBoot=00:00:00'',
      ''   OverSubscribe=OK Contiguous=0 Licenses=(null) Network=(null)'',
      ''   Command=/trinity/home/enmr/csb_webserver/data/runs/proabc2/nAO_3OnarD4a/proabc2.job'',
      ''   WorkDir=/trinity/home/enmr/csb_webserver/data/runs/proabc2'',
      ''   StdErr=/trinity/home/enmr/csb_webserver/data/runs/proabc2/nAO_3OnarD4a/proabc2.err'',
      ''   StdIn=/dev/null'',
      ''   StdOut=/trinity/home/enmr/csb_webserver/data/runs/proabc2/nAO_3OnarD4a/proabc2.out'',
      ''   Power='']"

definition slurm_scontrol_terminated_jobid :: string where
  "slurm_scontrol_terminated_jobid =
     text_of_lines (scontrol_head @ scontrol_state_line # scontrol_tail)"

definition slurm_scontrol_wrongjobid :: string where
  "slurm_scontrol_wrongjobid = ''slurm_load_jobs error: Invalid job id specified''"

text \<open>Whether \<open>needle\<close> occurs in the text \<open>s\<close>.\<close>

definition mentions :: "string \<Rightarrow> string \<Rightarrow> bool" where
  "mentions needle s = (find_after needle s \<noteq> None)"

section \<open>The configuration loader: \<^verbatim>\<open>haddock.gear.config_reader\<close>\<close>

text \<open>
  Modelled from the spec: the Configuration Loader, \<^verbatim>\<open>haddock/gear/config_reader.py\<close>, which is
  not among the sources (only \<^verbatim>\<open>tests/test_config_reader.py\<close> is). The model follows spec 4.1,
  steps 1 to 5, and the Config Tree of spec 3; where the spec and the expected trees of the
  repository's test disagree, the test decides (see \<open>finish\<close> below).

  Values (spec 4.1, step 4): double-quoted strings, integers, floats, the not-a-number token,
  the two boolean keywords, and bracketed lists of such scalars. A float literal is kept as its
  digits and the number of digits after the point (\<open>VFloat 1 2\<close> is \<^verbatim>\<open>0.01\<close>). A string that
  holds a \<^verbatim>\<open>/\<close> looks like a file-system path and is normalized to a path value.
\<close>

datatype cfg_value =
    VInt int
  | VFloat int nat
  | VStr string
  | VBool bool
  | VNan
  | VPath path
  | VList "cfg_value list"

text \<open>
  Modelled from the spec: the Config Tree of spec 3, an ordered mapping from keys to
  parameters and sections, in first-seen order.
\<close>

datatype node = Leaf cfg_value | Section "(string \<times> node) list"

type_synonym config = "(string \<times> node) list"

datatype config_error = ConfigSyntaxError string

text \<open>
  Modelled from the spec: what a line of the text is, once scanned (spec 4.1, step 1): the header of a top-level section, the header of a
  nested section (the name of its parent and the remaining dot segments), or a parameter.
\<close>

datatype line = Main string | Sub string "string list" | KV string cfg_value

text \<open>
  Modelled from the spec: scanning (spec 4.1, steps 1 and 5). A comment runs from \<^verbatim>\<open>#\<close> to the end of the line;
  surrounding blanks and empty lines are dropped; an identifier is a non-empty word of
  letters, digits and underscores.
\<close>

definition is_space :: "char \<Rightarrow> bool" where
  "is_space c = (c \<in> set [CHR '' '', CHR 0x09, CHR 0x0A, CHR 0x0D])"

definition strip :: "string \<Rightarrow> string" where
  "strip s = rev (dropWhile is_space (rev (dropWhile is_space s)))"

definition strip_comment :: "string \<Rightarrow> string" where
  "strip_comment l = takeWhile (\<lambda>c. c \<noteq> CHR ''#'') l"

definition ident :: "string \<Rightarrow> bool" where
  "ident s = (s \<noteq> [] \<and> list_all is_word_char s)"

text \<open>
  Modelled from the spec: a list literal may span several lines (spec 4.1, step 4). A line with more opening than closing brackets is
  joined with the lines that follow until the brackets balance. A list that is still open at
  the end of the text is a syntax error.
\<close>

definition open_list :: "string \<Rightarrow> bool" where
  "open_list s = (count_list s (CHR '']'') < count_list s (CHR ''[''))"

fun join_lists :: "string list \<Rightarrow> string option \<Rightarrow> config_error + string list" where
  "join_lists [] None = Inr []"
| "join_lists [] (Some pending) = Inl (ConfigSyntaxError pending)"
| "join_lists (l # ls) pending =
     (let joined = (case pending of None \<Rightarrow> l | Some p \<Rightarrow> p @ l)
      in if open_list joined then join_lists ls (Some joined)
         else (case join_lists ls None of
                 Inl e \<Rightarrow> Inl e
               | Inr rest \<Rightarrow> Inr (joined # rest)))"

definition digit_val :: "char \<Rightarrow> nat" where
  "digit_val c = length (takeWhile (\<lambda>d. d \<noteq> c) ''0123456789'')"

definition is_digit :: "char \<Rightarrow> bool" where
  "is_digit c = (c \<in> set ''0123456789'')"

definition nat_of_digits :: "string \<Rightarrow> nat" where
  "nat_of_digits ds = foldl (\<lambda>n c. 10 * n + digit_val c) 0 ds"

definition parse_number :: "string \<Rightarrow> cfg_value option" where
  "parse_number s =
     (let negative = (s \<noteq> [] \<and> hd s = CHR ''-'');
          body = (if s \<noteq> [] \<and> (hd s = CHR ''-'' \<or> hd s = CHR ''+'') then tl s else s);
          whole = takeWhile is_digit body;
          rest = dropWhile is_digit body;
          sign = (\<lambda>n. if negative then - int n else int n)
      in if whole = [] then None
         else if rest = [] then Some (VInt (sign (nat_of_digits whole)))
         else if hd rest = CHR ''.'' \<and> tl rest \<noteq> [] \<and> list_all is_digit (tl rest)
              then Some (VFloat (sign (nat_of_digits (whole @ tl rest))) (length (tl rest)))
         else None)"

definition parse_scalar :: "string \<Rightarrow> config_error + cfg_value" where
  "parse_scalar s =
     (if 2 \<le> length s \<and> hd s = CHR 0x22 \<and> last s = CHR 0x22 then
        (let inner = butlast (tl s)
         in Inr (if CHR ''/'' \<in> set inner then VPath (parse_path inner) else VStr inner))
      else if s = ''true'' then Inr (VBool True)
      else if s = ''false'' then Inr (VBool False)
      else if s = ''nan'' then Inr VNan
      else (case parse_number s of
              Some v \<Rightarrow> Inr v
            | None \<Rightarrow> Inl (ConfigSyntaxError s)))"

fun all_or_error :: "('e + 'a) list \<Rightarrow> 'e + 'a list" where
  "all_or_error [] = Inr []"
| "all_or_error (Inl e # rs) = Inl e"
| "all_or_error (Inr x # rs) = (case all_or_error rs of Inl e \<Rightarrow> Inl e | Inr xs \<Rightarrow> Inr (x # xs))"

definition parse_value :: "string \<Rightarrow> config_error + cfg_value" where
  "parse_value s =
     (if s \<noteq> [] \<and> hd s = CHR ''['' then
        (if last s = CHR '']'' \<and> 2 \<le> length s then
           (case all_or_error
                   (map parse_scalar
                      (filter (\<lambda>item. item \<noteq> [])
                         (map strip (split_on (CHR '','') (butlast (tl s)))))) of
              Inl e \<Rightarrow> Inl e
            | Inr items \<Rightarrow> Inr (VList items))
         else Inl (ConfigSyntaxError s))
      else parse_scalar s)"

text \<open>
  Modelled from the spec: the two header forms and the parameter line of spec 4.1, steps 1
  and 3. A line that starts with \<^verbatim>\<open>[\<close> must be a header, \<^verbatim>\<open>[IDENTIFIER]\<close> or
  \<^verbatim>\<open>[IDENTIFIER(.IDENTIFIER)+]\<close>; every other line must be \<^verbatim>\<open>key = value\<close>. Anything else
  is a syntax error.
\<close>

definition parse_line :: "string \<Rightarrow> config_error + line" where
  "parse_line l =
     (if l \<noteq> [] \<and> hd l = CHR ''['' then
        (let segments = split_on (CHR ''.'') (butlast (tl l))
         in if last l = CHR '']'' \<and> 2 \<le> length l \<and> list_all ident segments then
              (case segments of
                 [] \<Rightarrow> Inl (ConfigSyntaxError l)
               | [name] \<Rightarrow> Inr (Main name)
               | name # subs \<Rightarrow> Inr (Sub name subs))
            else Inl (ConfigSyntaxError l))
      else
        (let key = strip (takeWhile (\<lambda>c. c \<noteq> CHR ''='') l);
             rhs = dropWhile (\<lambda>c. c \<noteq> CHR ''='') l
         in if rhs \<noteq> [] \<and> ident key then
              (case parse_value (strip (tl rhs)) of
                 Inl e \<Rightarrow> Inl e
               | Inr v \<Rightarrow> Inr (KV key v))
            else Inl (ConfigSyntaxError l)))"

definition scan :: "string \<Rightarrow> config_error + line list" where
  "scan text =
     (case join_lists
             (filter (\<lambda>l. l \<noteq> [])
                (map (\<lambda>l. strip (strip_comment l)) (split_on (CHR 0x0A) text))) None of
        Inl e \<Rightarrow> Inl e
      | Inr ls \<Rightarrow> all_or_error (map parse_line ls))"

text \<open>
  Modelled from the spec: building the tree (spec 4.1, steps 2 and 3). The reader holds the tree built so far, the
  repetition counter of every top-level name and the path of the section that is open (empty
  at the root). A top-level header increments the counter of its name and opens a new, empty
  instance under the key \<open>name.n\<close>; a nested header opens the named sub-section of the
  last-declared instance of its parent (spec 3), which must exist; a parameter is stored in
  the open section.
\<close>

record reader =
  tree :: config
  counter :: "string \<Rightarrow> nat"
  current :: "string list"

definition inst_key :: "string \<Rightarrow> nat \<Rightarrow> string" where
  "inst_key name n = name @ ''.'' @ str_nat n"

fun modify_at :: "string list \<Rightarrow> (config \<Rightarrow> config) \<Rightarrow> config \<Rightarrow> config" where
  "modify_at [] f t = f t"
| "modify_at (k # ks) f t =
     AList.update k
       (Section (modify_at ks f (case map_of t k of Some (Section sub) \<Rightarrow> sub | _ \<Rightarrow> []))) t"

fun step :: "line \<Rightarrow> reader \<Rightarrow> config_error + reader" where
  "step (Main name) st =
     (let n = counter st name + 1;
          key = inst_key name n
      in Inr \<lparr>tree = AList.update key (Section []) (tree st),
              counter = (counter st)(name := n),
              current = [key]\<rparr>)"
| "step (Sub name subs) st =
     (if counter st name = 0 then Inl (ConfigSyntaxError name)
      else let place = inst_key name (counter st name) # subs
           in Inr (st\<lparr>tree := modify_at place (\<lambda>t. t) (tree st), current := place\<rparr>))"
| "step (KV key v) st =
     Inr (st\<lparr>tree := modify_at (current st) (AList.update key (Leaf v)) (tree st)\<rparr>)"

fun run_lines :: "line list \<Rightarrow> reader \<Rightarrow> config_error + reader" where
  "run_lines [] st = Inr st"
| "run_lines (l # ls) st = (case step l st of Inl e \<Rightarrow> Inl e | Inr st' \<Rightarrow> run_lines ls st')"

definition start :: reader where
  "start = \<lparr>tree = [], counter = (\<lambda>name. 0), current = []\<rparr>"

text \<open>
  Modelled from the spec, with the keys of the finished tree taken from the repository's test.
  The expected trees of \<^verbatim>\<open>test_load\<close> in
  \<^verbatim>\<open>tests/test_config_reader.py\<close> key a section whose name is declared once by the bare name
  (\<^verbatim>\<open>"module"\<close>, \<^verbatim>\<open>"header"\<close>) and the instances of a repeated name by \<^verbatim>\<open>name.1\<close>,
  \<^verbatim>\<open>name.2\<close> (\<^verbatim>\<open>"headerone.1"\<close>, \<^verbatim>\<open>"headerone.2"\<close>): the suffix \<^verbatim>\<open>.1\<close> of a name whose
  counter ended at 1 is dropped.
\<close>

definition bare_name :: "string \<Rightarrow> string option" where
  "bare_name key =
     (if 2 \<le> length key \<and> drop (length key - 2) key = ''.1''
      then Some (take (length key - 2) key) else None)"

definition final_key :: "(string \<Rightarrow> nat) \<Rightarrow> string \<times> node \<Rightarrow> string" where
  "final_key count entry =
     (case entry of
        (key, Leaf v) \<Rightarrow> key
      | (key, Section sub) \<Rightarrow>
          (case bare_name key of
             Some name \<Rightarrow> if count name = 1 then name else key
           | None \<Rightarrow> key))"

definition finish :: "reader \<Rightarrow> config" where
  "finish st = map (\<lambda>entry. (final_key (counter st) entry, snd entry)) (tree st)"

definition read_lines :: "line list \<Rightarrow> config_error + config" where
  "read_lines ls = (case run_lines ls start of Inl e \<Rightarrow> Inl e | Inr st \<Rightarrow> Inr (finish st))"

definition loads :: "string \<Rightarrow> config_error + config" where
  "loads text = (case scan text of Inl e \<Rightarrow> Inl e | Inr ls \<Rightarrow> read_lines ls)"

subsection \<open>Notions for the statements about the loader\<close>

text \<open>
  The keys of the top-level sections of a tree, in order; the names of the top-level headers
  of a scanned text, in order; and the numbering of their occurrences, each name with its
  running repetition count.
\<close>

definition is_section :: "node \<Rightarrow> bool" where
  "is_section nd = (case nd of Section sub \<Rightarrow> True | Leaf v \<Rightarrow> False)"

definition section_keys :: "config \<Rightarrow> string list" where
  "section_keys t = map fst (filter (\<lambda>entry. is_section (snd entry)) t)"

fun main_names :: "line list \<Rightarrow> string list" where
  "main_names [] = []"
| "main_names (Main name # ls) = name # main_names ls"
| "main_names (l # ls) = main_names ls"

fun occurrences :: "string list \<Rightarrow> (string \<Rightarrow> nat) \<Rightarrow> (string \<times> nat) list" where
  "occurrences [] seen = []"
| "occurrences (name # names) seen =
     (name, seen name + 1) # occurrences names (seen(name := seen name + 1))"

fun wf_line :: "line \<Rightarrow> bool" where
  "wf_line (Main name) = ident name"
| "wf_line (Sub name subs) = (ident name \<and> list_all ident subs)"
| "wf_line (KV key v) = ident key"

text \<open>
  The invariant of the reader, on the shape of the tree (its keys, each with whether it is a
  section): section keys are numbered instances of identifiers within the counters, parameter
  keys are identifiers, every counted instance is present, and the open section exists.
\<close>

definition shape :: "config \<Rightarrow> (string \<times> bool) list" where
  "shape t = map (\<lambda>entry. (fst entry, is_section (snd entry))) t"

definition sect_ok :: "(string \<Rightarrow> nat) \<Rightarrow> (string \<times> bool) list \<Rightarrow> bool" where
  "sect_ok c sh = (\<forall>k. (k, True) \<in> set sh \<longrightarrow> (\<exists>g m. k = inst_key g m \<and> ident g \<and> 0 < m \<and> m \<le> c g))"

definition leaf_ok :: "(string \<times> bool) list \<Rightarrow> bool" where
  "leaf_ok sh = (\<forall>k. (k, False) \<in> set sh \<longrightarrow> ident k)"

definition inst_ok :: "(string \<Rightarrow> nat) \<Rightarrow> (string \<times> bool) list \<Rightarrow> bool" where
  "inst_ok c sh = (\<forall>g m. 0 < m \<and> m \<le> c g \<longrightarrow> (inst_key g m, True) \<in> set sh)"

definition names_ok :: "(string \<Rightarrow> nat) \<Rightarrow> bool" where
  "names_ok c = (\<forall>g. 0 < c g \<longrightarrow> ident g)"

definition good :: "reader \<Rightarrow> bool" where
  "good st =
     (distinct (map fst (tree st)) \<and>
      sect_ok (counter st) (shape (tree st)) \<and>
      leaf_ok (shape (tree st)) \<and>
      inst_ok (counter st) (shape (tree st)) \<and>
      (current st \<noteq> [] \<longrightarrow> (hd (current st), True) \<in> set (shape (tree st))) \<and>
      names_ok (counter st))"

definition numbered :: "string list \<Rightarrow> (string \<Rightarrow> nat) \<Rightarrow> string list" where
  "numbered names seen = map (\<lambda>(h, i). inst_key h i) (occurrences names seen)"

definition rename :: "(string \<Rightarrow> nat) \<Rightarrow> string \<Rightarrow> string" where
  "rename count key =
     (case bare_name key of Some name \<Rightarrow> if count name = 1 then name else key | None \<Rightarrow> key)"








subsection \<open>The examples of \<^verbatim>\<open>tests/test_config_reader.py\<close>\<close>

text \<open>
  Equality of Python dictionaries: the same keys with equal values, whatever the order.
\<close>

fun node_eq :: "node \<Rightarrow> node \<Rightarrow> bool"
  and entries_in :: "(string \<times> node) list \<Rightarrow> (string \<times> node) list \<Rightarrow> bool" where
  "node_eq (Leaf v) other = (other = Leaf v)"
| "node_eq (Section entries) other =
     (case other of
        Leaf v \<Rightarrow> False
      | Section others \<Rightarrow> length entries = length others \<and> entries_in entries others)"
| "entries_in [] others = True"
| "entries_in ((key, nd) # entries) others =
     ((case map_of others key of None \<Rightarrow> False | Some other \<Rightarrow> node_eq nd other)
      \<and> entries_in entries others)"

definition dict_eq :: "config \<Rightarrow> config \<Rightarrow> bool" where
  "dict_eq a b = node_eq (Section a) (Section b)"

text \<open>
  The three configuration texts of \<^verbatim>\<open>test_load\<close> and the trees the test expects, as they are
  written there.
\<close>

definition config_example_1 :: string where
  "config_example_1 = text_of_lines
     ['''',
      ''# some comment'',
      ''num1 = 10'',
      ''name=\"somestring\"'',
      ''w_vdw_1 = 1.0'',
      ''w_vdw_0 = 0.01'',
      ''w_vdw_2 = 1.0'',
      ''[headerone]'',
      ''name = \"theotherstring\"'',
      ''_list = ['',
      ''    12,'',
      ''    15,'',
      ''    ]'',
      '''',
      ''[headerone.weights]'',
      ''val = 1'',
      ''bsa = 0.1'',
      ''elec = -1'',
      ''list1 = [1, 2,3]'',
      '''',
      ''[headerone] #some comment'',
      ''[headerone.weights]'',
      ''other = 50'']"

definition config_example_dict_1 :: config where
  "config_example_dict_1 =
     [(''num1'', Leaf (VInt 10)),
      (''name'', Leaf (VStr ''somestring'')),
      (''w_vdw_0'', Leaf (VFloat 1 2)),
      (''w_vdw_1'', Leaf (VFloat 10 1)),
      (''w_vdw_2'', Leaf (VFloat 10 1)),
      (''headerone.1'', Section
         [(''name'', Leaf (VStr ''theotherstring'')),
          (''_list'', Leaf (VList [VInt 12, VInt 15])),
          (''weights'', Section
             [(''val'', Leaf (VInt 1)),
              (''bsa'', Leaf (VFloat 1 1)),
              (''elec'', Leaf (VInt (- 1))),
              (''list1'', Leaf (VList [VInt 1, VInt 2, VInt 3]))])]),
      (''headerone.2'', Section [(''weights'', Section [(''other'', Leaf (VInt 50))])])]"

definition config_example_2 :: string where
  "config_example_2 = text_of_lines
     [''num1 = 10'',
      ''molecules = [\"../some/file\", \"../some/otherfile\"]'',
      ''[module]'',
      ''some_path_fname = \"./pointing/to/some/path\"'',
      ''[module.d1]'',
      ''var1 = 1'',
      ''[module.d1.d2]'',
      ''var3 = true'',
      ''list_ = ['',
      ''    1,'',
      ''    2,'',
      ''    3, 4'',
      ''    ]'']"

definition config_example_dict_2 :: config where
  "config_example_dict_2 =
     [(''num1'', Leaf (VInt 10)),
      (''molecules'', Leaf (VList [VPath (parse_path ''../some/file''),
                                   VPath (parse_path ''../some/otherfile'')])),
      (''module'', Section
         [(''some_path_fname'', Leaf (VPath (Path False [''pointing'', ''to'', ''some'', ''path'']))),
          (''d1'', Section
             [(''var1'', Leaf (VInt 1)),
              (''d2'', Section
                 [(''var3'', Leaf (VBool True)),
                  (''list_'', Leaf (VList [VInt 1, VInt 2, VInt 3, VInt 4]))])])])]"

definition config_example_3 :: string where
  "config_example_3 = text_of_lines
     ['''',
      ''val = 1'',
      ''[header]'',
      ''[header.d1]'',
      ''val2 = 10'',
      ''val3 = 20'']"

definition config_example_dict_3 :: config where
  "config_example_dict_3 =
     [(''val'', Leaf (VInt 1)),
      (''header'', Section
         [(''d1'', Section [(''val2'', Leaf (VInt 10)), (''val3'', Leaf (VInt 20))])])]"


section \<open>A sample run directory\<close>

text \<open>
  Concrete values on which the theorems below are evaluated: a run directory \<^verbatim>\<open>/run\<close> without
  symbolic links, holding no manifest at all, and a recipe and a defaults file under \<^verbatim>\<open>/cns\<close>.
\<close>

definition demo_constants :: constants where
  "demo_constants =
     \<lparr>MODULE_PATH_NAME = ''step_'', MODULE_IO_FILE = ''io.json'', TOPOLOGY_PATH = ''topology''\<rparr>"

definition demo_recipe :: path where
  "demo_recipe = Path True [''cns'', ''rigidbody.cns'']"

definition demo_defaults :: path where
  "demo_defaults = Path True [''cns'', ''rigidbody.toml'']"

definition demo_env :: env where
  "demo_env =
     \<lparr>cwd = Path True [''run''],
      resolve = (\<lambda>p. if anchored p then p else joinpath (Path True [''run'']) p),
      is_file = (\<lambda>p. p = demo_recipe \<or> p = demo_defaults),
      io_load = (\<lambda>p. Inl FileNotFoundError),
      open_read = (\<lambda>p. if p = demo_recipe then Inr ''! recipe'' else Inl FileNotFoundError),
      toml_load = (\<lambda>p. if p = demo_defaults then Inr [(''sampling'', ''1000'')]
                         else Inl FileNotFoundError)\<rparr>"



chapter \<open>Properties\<close>

section \<open>The partition computed by \<open>get_index_list\<close>\<close>

lemma boundary_Suc:
  "0 \<le> rem \<Longrightarrow>
   boundary spc rem (Suc k) = boundary spc rem k + (if int k < rem then spc + 1 else spc)"
  by (simp add: boundary_def algebra_simps min_def)

lemma index_loop_boundary:
  assumes "0 \<le> rem"
  shows "index_list = map (boundary spc rem) [0..<Suc a] \<Longrightarrow>
         index_loop spc rem [a..<a + m] index_list = map (boundary spc rem) [0..<Suc (a + m)]"
proof (induction m arbitrary: a index_list)
  case 0
  then show ?case by simp
next
  case (Suc m)
  have upt: "[a..<a + Suc m] = a # [Suc a..<Suc a + m]"
    by (simp add: upt_conv_Cons)
  have lst: "last index_list = boundary spc rem a"
    using Suc.prems by simp
  let ?il = "index_list @ [boundary spc rem (Suc a)]"
  have step: "(if int a < rem
        then index_list @ [last index_list + spc + 1]
        else index_list @ [last index_list + spc]) = ?il"
    using boundary_Suc [OF assms, of spc a] lst by simp
  have il: "?il = map (boundary spc rem) [0..<Suc (Suc a)]"
    using Suc.prems by simp
  have "index_loop spc rem [a..<a + Suc m] index_list = index_loop spc rem [Suc a..<Suc a + m] ?il"
    unfolding upt index_loop.simps step ..
  also have "\<dots> = map (boundary spc rem) [0..<Suc (Suc a + m)]"
    by (rule Suc.IH [OF il])
  finally show ?case by simp
qed

lemma get_index_list_boundary:
  assumes "0 < ncores"
  shows "get_index_list nmodels ncores =
           Inr (map (boundary (nmodels div ncores) (nmodels mod ncores)) [0..<Suc (nat ncores)])"
proof -
  have rem: "0 \<le> nmodels mod ncores"
    using assms by simp
  have "index_loop (nmodels div ncores) (nmodels mod ncores) [0..<0 + nat ncores] [0] =
          map (boundary (nmodels div ncores) (nmodels mod ncores)) [0..<Suc (0 + nat ncores)]"
    by (rule index_loop_boundary [OF rem]) (use rem in \<open>simp add: boundary_def\<close>)
  then show ?thesis
    using assms by (simp add: get_index_list_def)
qed

lemma boundary_0: "0 \<le> rem \<Longrightarrow> boundary spc rem 0 = 0"
  by (simp add: boundary_def)

lemma boundary_total:
  assumes "0 < c"
  shows "boundary (n div c) (n mod c) (nat c) = n"
proof -
  have "n mod c < c" using assms by simp
  then have "min (int (nat c)) (n mod c) = n mod c"
    using assms by simp
  then show ?thesis
    using assms by (simp add: boundary_def)
qed

lemma boundary_mono:
  assumes "0 \<le> spc" "0 \<le> rem" "j \<le> k"
  shows "boundary spc rem j \<le> boundary spc rem k"
proof -
  have "int j * spc \<le> int k * spc"
    using assms by (simp add: mult_right_mono)
  moreover have "min (int j) rem \<le> min (int k) rem"
    using assms by simp
  ultimately show ?thesis
    by (simp add: boundary_def)
qed

lemma boundary_cover:
  assumes spc: "0 \<le> spc" and rem: "0 \<le> rem" and c: "0 < c"
    and i: "0 \<le> i" "i < boundary spc rem c"
  shows "\<exists>!k. k < c \<and> boundary spc rem k \<le> i \<and> i < boundary spc rem (Suc k)"
proof -
  define k where "k = (LEAST j. i < boundary spc rem (Suc j))"
  obtain c' where c': "c = Suc c'"
    using c by (cases c) auto
  have ex: "i < boundary spc rem (Suc c')"
    using i c' by simp
  have above: "i < boundary spc rem (Suc k)"
    unfolding k_def using ex by (rule LeastI)
  have "k \<le> c'"
    unfolding k_def using ex by (rule Least_le)
  then have kc: "k < c"
    using c' by simp
  have below: "boundary spc rem k \<le> i"
  proof (cases k)
    case 0
    then show ?thesis using i rem by (simp add: boundary_0)
  next
    case (Suc k')
    have "\<not> i < boundary spc rem (Suc k')"
    proof
      assume "i < boundary spc rem (Suc k')"
      then have "k \<le> k'" unfolding k_def by (rule Least_le)
      then show False using Suc by simp
    qed
    then show ?thesis using Suc by simp
  qed
  show ?thesis
  proof (rule ex1I [of _ k])
    show "k < c \<and> boundary spc rem k \<le> i \<and> i < boundary spc rem (Suc k)"
      using kc below above by simp
  next
    fix j
    assume j: "j < c \<and> boundary spc rem j \<le> i \<and> i < boundary spc rem (Suc j)"
    show "j = k"
    proof (rule ccontr)
      assume "j \<noteq> k"
      then consider "Suc j \<le> k" | "Suc k \<le> j"
        by linarith
      then show False
      proof cases
        case 1
        then have "boundary spc rem (Suc j) \<le> boundary spc rem k"
          by (rule boundary_mono [OF spc rem])
        then show False using j below by linarith
      next
        case 2
        then have "boundary spc rem (Suc k) \<le> boundary spc rem j"
          by (rule boundary_mono [OF spc rem])
        then show False using j above by linarith
      qed
    qed
  qed
qed

lemma extra_card:
  assumes "0 \<le> rem" "rem < int c"
  shows "card {k. k < c \<and> (if int k < rem then spc + 1 else spc) = spc + (1::int)} = nat rem"
proof -
  have "{k. k < c \<and> (if int k < rem then spc + 1 else spc) = spc + 1} = {..<nat rem}"
    using assms by (auto split: if_splits)
  then show ?thesis by simp
qed

text \<open>
  C3. For a workload of \<open>n \<ge> 0\<close> units and \<open>c \<ge> 1\<close> workers, \<open>get_index_list n c\<close> returns
  \<open>c + 1\<close> boundaries, the first \<open>0\<close> and the last \<open>n\<close>, so that the \<open>c\<close> ranges
  \<open>[il ! k, il ! (k + 1))\<close> follow one another without gap or overlap: every unit of
  \<open>[0, n)\<close> lies in exactly one of them. The length of range \<open>k\<close> is \<open>n div c + 1\<close> when
  \<open>k < n mod c\<close> and \<open>n div c\<close> otherwise, so exactly the \<open>n mod c\<close> lowest-indexed workers
  receive the extra unit.
\<close>

theorem get_index_list_partition:
  assumes n: "0 \<le> n" and c: "1 \<le> c"
  shows "\<exists>il. get_index_list n c = Inr il
           \<and> length il = nat c + 1
           \<and> il ! 0 = 0
           \<and> il ! nat c = n
           \<and> (\<forall>k < nat c. il ! Suc k - il ! k = (if int k < n mod c then n div c + 1 else n div c))
           \<and> (\<forall>i. 0 \<le> i \<and> i < n \<longrightarrow> (\<exists>!k. k < nat c \<and> il ! k \<le> i \<and> i < il ! Suc k))
           \<and> card {k. k < nat c \<and> il ! Suc k - il ! k = n div c + 1} = nat (n mod c)"
proof -
  let ?spc = "n div c" and ?rem = "n mod c"
  let ?il = "map (boundary ?spc ?rem) [0..<Suc (nat c)]"
  have c0: "0 < c" using c by simp
  have rem: "0 \<le> ?rem" "?rem < int (nat c)" using c0 by simp_all
  have spc: "0 \<le> ?spc" using n c0 by (simp add: pos_imp_zdiv_nonneg_iff)
  have nth: "?il ! k = boundary ?spc ?rem k" if "k \<le> nat c" for k
    using that by (simp add: nth_map_upt del: upt_Suc)
  have eq: "get_index_list n c = Inr ?il"
    by (rule get_index_list_boundary [OF c0])
  have len: "length ?il = nat c + 1" by simp
  have first: "?il ! 0 = 0"
    using nth [of 0] rem by (simp add: boundary_0)
  have last: "?il ! nat c = n"
    using nth [of "nat c"] boundary_total [OF c0, of n] by simp
  have diff: "?il ! Suc k - ?il ! k = (if int k < ?rem then ?spc + 1 else ?spc)" if "k < nat c" for k
    using that nth [of k] nth [of "Suc k"] boundary_Suc [OF rem(1), of ?spc k] by simp
  have cover: "\<exists>!k. k < nat c \<and> ?il ! k \<le> i \<and> i < ?il ! Suc k" if "0 \<le> i \<and> i < n" for i
  proof -
    have "i < boundary ?spc ?rem (nat c)"
      using that boundary_total [OF c0, of n] by simp
    with that have "\<exists>!k. k < nat c \<and> boundary ?spc ?rem k \<le> i \<and> i < boundary ?spc ?rem (Suc k)"
      using boundary_cover [OF spc rem(1), of "nat c" i] c0 by simp
    moreover have "(k < nat c \<and> ?il ! k \<le> i \<and> i < ?il ! Suc k) =
                   (k < nat c \<and> boundary ?spc ?rem k \<le> i \<and> i < boundary ?spc ?rem (Suc k))" for k
      using nth [of k] nth [of "Suc k"] by (cases "k < nat c") simp_all
    ultimately show ?thesis by simp
  qed
  have "{k. k < nat c \<and> ?il ! Suc k - ?il ! k = ?spc + 1} =
        {k. k < nat c \<and> (if int k < ?rem then ?spc + 1 else ?spc) = ?spc + 1}"
    using diff by (auto split: if_splits)
  then have card: "card {k. k < nat c \<and> ?il ! Suc k - ?il ! k = ?spc + 1} = nat ?rem"
    using extra_card [OF rem, of ?spc] by simp
  show ?thesis
    using eq len first last diff cover card by blast
qed

theorem get_index_list_partition_witness:
  "(0::int) \<le> 10 \<and> (1::int) \<le> 3 \<and> get_index_list 10 3 = Inr [0, 4, 7, 10] \<and>
   (\<exists>il. get_index_list 10 3 = Inr il \<and> length il = 4 \<and> il ! 0 = 0 \<and> il ! 3 = 10)"
proof -
  have ev: "get_index_list 10 3 = Inr [0, 4, 7, 10]"
    by code_simp
  have "\<exists>il. get_index_list 10 3 = Inr il \<and> length il = 4 \<and> il ! 0 = 0 \<and> il ! 3 = 10"
    using get_index_list_partition [of 10 3] by auto
  with ev show ?thesis by simp
qed

section \<open>Predecessor addressing and the predecessor manifest\<close>

text \<open>
  C1. The predecessor directory is a function of the ordinal and the step's own directory only.
  For ordinal \<open>1\<close> it is the parent of the (resolved) working directory joined with
  \<open>TOPOLOGY_PATH\<close>; for an ordinal \<open>k > 1\<close> it is that parent joined with the name made of
  \<open>MODULE_PATH_NAME\<close> and the decimal digits of \<open>k - 1\<close>. No other attribute of the module
  object and no other part of the file system (which files exist, what the predecessor wrote)
  enters the result: any module with the same ordinal and directory, in any environment that
  resolves paths alike, gets the same answer.
\<close>

theorem previous_path_by_ordinal:
  "(order self = 1 \<longrightarrow>
      previous_path K E self =
        joinpath (absolute E (parent (resolve E (path self)))) (parse_path (TOPOLOGY_PATH K))) \<and>
   (order self > 1 \<longrightarrow>
      previous_path K E self =
        joinpath (absolute E (parent (resolve E (path self))))
                 (parse_path (MODULE_PATH_NAME K @ str_int (order self - 1)))) \<and>
   (\<forall>self' E'. order self' = order self \<and> path self' = path self \<and>
               resolve E' = resolve E \<and> cwd E' = cwd E \<longrightarrow>
               previous_path K E' self' = previous_path K E self)"
  by (simp add: previous_path_def absolute_def)

theorem previous_path_by_ordinal_witness:
  "order (new_module 3 (Path True [''run'', ''step_3''])) > 1 \<and>
   previous_path demo_constants demo_env (new_module 3 (Path True [''run'', ''step_3'']))
     = Path True [''run'', ''step_2''] \<and>
   order (new_module 1 (Path False [''step_1''])) = 1 \<and>
   previous_path demo_constants demo_env (new_module 1 (Path False [''step_1'']))
     = Path True [''run'', ''topology'']"
proof -
  have s: "str_int 2 = ''2''"
    by (simp add: str_int_def str_nat.simps digit_char_def)
  have a: "parse_path ''step_2'' = Path False [''step_2'']"
    and b: "parse_path ''topology'' = Path False [''topology'']"
    by (simp_all add: parse_path_def)
  show ?thesis
    using previous_path_by_ordinal [of "new_module 3 (Path True [''run'', ''step_3''])" demo_constants demo_env]
      previous_path_by_ordinal [of "new_module 1 (Path False [''step_1''])" demo_constants demo_env]
    by (simp add: new_module_def demo_constants_def demo_env_def s a b
        joinpath_def absolute_def parent_def)
qed

text \<open>
  C10. With an ordinal \<open>\<le> 0\<close>, \<open>previous_path\<close> returns the step's own path as it is (not
  resolved, no predecessor directory); with ordinal \<open>0\<close> the predecessor manifest is the empty
  \<open>ModuleIO\<close> whatever the file system holds.
\<close>

theorem previous_path_setup_phase:
  "(order self \<le> 0 \<longrightarrow> previous_path K E self = path self) \<and>
   (order self = 0 \<longrightarrow> (\<forall>E'. load_previous_io K E' self = Inr ModuleIO))"
  by (simp add: previous_path_def load_previous_io_def)

theorem previous_path_setup_phase_witness:
  "order (new_module 0 (Path False [''topology''])) \<le> 0 \<and>
   order (new_module 0 (Path False [''topology''])) = 0 \<and>
   previous_path demo_constants demo_env (new_module 0 (Path False [''topology'']))
     = Path False [''topology''] \<and>
   load_previous_io demo_constants demo_env (new_module 0 (Path False [''topology''])) = Inr []"
  using previous_path_setup_phase [of "new_module 0 (Path False [''topology''])" demo_constants demo_env]
  by (simp add: new_module_def ModuleIO_def)

text \<open>
  C2, as stated, asks that a runtime of ordinal \<open>\<ge> 1\<close> whose predecessor wrote no manifest
  fails to construct. It does not: in the sample run directory, which holds no manifest, the
  module of ordinal \<open>1\<close> is constructed, with an empty predecessor manifest.
\<close>

theorem missing_manifest_counterexample:
  "1 \<le> (1::int) \<and>
   \<not> is_file demo_env (manifest_file demo_constants demo_env (new_module 1 (Path False [''step_1'']))) \<and>
   init demo_constants demo_env 1 (Path False [''step_1'']) (Some demo_recipe) (Some demo_defaults) =
     Inr \<lparr>order = 1, path = Path False [''step_1''], previous_io = Some ModuleIO,
          cns_folder_path = Some (Path True [''cns'']),
          cns_recipe_path = Some demo_recipe,
          defaults_path = Some demo_defaults,
          recipe_str = Some ''! recipe'',
          defaults = Some [(''sampling'', ''1000'')]\<rparr>"
  by (simp add: init_def load_previous_io_def previous_path_def manifest_file_def new_module_def
      demo_env_def demo_constants_def demo_recipe_def demo_defaults_def parse_path_def
      joinpath_def absolute_def parent_def ModuleIO_def)

text \<open>
  C2, amended. The guard \<^verbatim>\<open>if previous_io.is_file()\<close> makes a missing manifest an empty one
  for every ordinal, not for ordinal \<open>0\<close> only: \<open>load_previous_io\<close> returns the empty
  \<open>ModuleIO\<close> without raising, and the construction goes on to the recipe and the defaults (and
  succeeds when both can be read).
\<close>

theorem missing_manifest_is_empty:
  "(order self = 0 \<longrightarrow> load_previous_io K E self = Inr ModuleIO) \<and>
   (order self \<noteq> 0 \<and> \<not> is_file E (manifest_file K E self) \<longrightarrow>
      load_previous_io K E self = Inr ModuleIO) \<and>
   (ord \<noteq> 0 \<and> \<not> is_file E (manifest_file K E (new_module ord p)) \<and>
    open_read E recipe = Inr text \<and> toml_load E dpath = Inr loaded \<longrightarrow>
      (\<exists>self'. init K E ord p (Some recipe) (Some dpath) = Inr self' \<and>
               previous_io self' = Some ModuleIO))"
  by (simp add: load_previous_io_def manifest_file_def init_def new_module_def Let_def)

theorem missing_manifest_is_empty_witness:
  "order (new_module 1 (Path False [''step_1''])) \<noteq> 0 \<and>
   \<not> is_file demo_env (manifest_file demo_constants demo_env (new_module 1 (Path False [''step_1'']))) \<and>
   open_read demo_env demo_recipe = Inr ''! recipe'' \<and>
   toml_load demo_env demo_defaults = Inr [(''sampling'', ''1000'')] \<and>
   load_previous_io demo_constants demo_env (new_module 1 (Path False [''step_1''])) = Inr ModuleIO \<and>
   (\<exists>self'. init demo_constants demo_env 1 (Path False [''step_1'']) (Some demo_recipe) (Some demo_defaults)
              = Inr self' \<and> previous_io self' = Some ModuleIO) \<and>
   order (new_module 0 (Path False [''topology''])) = 0 \<and>
   load_previous_io demo_constants demo_env (new_module 0 (Path False [''topology''])) = Inr ModuleIO"
proof -
  have nf: "\<not> is_file demo_env (manifest_file demo_constants demo_env (new_module 1 (Path False [''step_1''])))"
    by (simp add: previous_path_def manifest_file_def new_module_def
      demo_env_def demo_constants_def demo_recipe_def demo_defaults_def parse_path_def
      joinpath_def absolute_def parent_def)
  have rd: "open_read demo_env demo_recipe = Inr ''! recipe''"
    "toml_load demo_env demo_defaults = Inr [(''sampling'', ''1000'')]"
    by (simp_all add: demo_env_def)
  have o: "order (new_module 1 (Path False [''step_1''])) \<noteq> 0"
    "order (new_module 0 (Path False [''topology''])) = 0"
    by (simp_all add: new_module_def)
  show ?thesis
    using nf rd o
      missing_manifest_is_empty [of "new_module 1 (Path False [''step_1''])" demo_constants demo_env
        1 "Path False [''step_1'']" demo_recipe "''! recipe''" demo_defaults "[(''sampling'', ''1000'')]"]
      missing_manifest_is_empty [of "new_module 0 (Path False [''topology''])" demo_constants demo_env]
    by simp
qed

section \<open>Construction of the runtime fails fast\<close>




section \<open>Queue status parsing and wall-time formatting\<close>

lemma pad2_minutes: "n < 60 \<Longrightarrow> length (pad2 n) = 2"
proof -
  assume n: "n < 60"
  show ?thesis
  proof (cases "n < 10")
    case True
    then show ?thesis by (simp add: pad2_def str_nat.simps)
  next
    case False
    with n have "n div 10 < 10" by simp
    with False show ?thesis
      by (simp add: pad2_def str_nat.simps [of n] str_nat.simps [of "n div 10"])
  qed
qed

text \<open>
  C4. \<open>to_torque_time m\<close> is the decimal rendering of \<open>m div 60\<close> (at least two digits, never
  cut), a colon, the two digits of \<open>m mod 60\<close> and \<^verbatim>\<open>:00\<close>; the five values of
  \<^verbatim>\<open>test_to_torque_time\<close> come out as the test expects.
\<close>

theorem to_torque_time_format:
  "to_torque_time m = pad2 (m div 60) @ '':'' @ pad2 (m mod 60) @ '':00'' \<and>
   length (pad2 (m mod 60)) = 2 \<and>
   pad2 (m div 60) = (if m div 60 < 10 then CHR ''0'' # str_nat (m div 60) else str_nat (m div 60)) \<and>
   to_torque_time 10 = ''00:10:00'' \<and>
   to_torque_time 60 = ''01:00:00'' \<and>
   to_torque_time 70 = ''01:10:00'' \<and>
   to_torque_time 1510 = ''25:10:00'' \<and>
   to_torque_time 6070 = ''101:10:00''"
proof -
  have "to_torque_time 10 = ''00:10:00''" by code_simp
  moreover have "to_torque_time 60 = ''01:00:00''" by code_simp
  moreover have "to_torque_time 70 = ''01:10:00''" by code_simp
  moreover have "to_torque_time 1510 = ''25:10:00''" by code_simp
  moreover have "to_torque_time 6070 = ''101:10:00''" by code_simp
  moreover have "length (pad2 (m mod 60)) = 2" by (rule pad2_minutes) simp
  ultimately show ?thesis
    by (simp add: to_torque_time_def pad2_def)
qed

lemma starts_with_length: "starts_with p s \<Longrightarrow> length p \<le> length s"
  by (induction p s rule: starts_with.induct) simp_all

lemma starts_with_append_nl:
  "nl \<notin> set needle \<Longrightarrow> starts_with needle (s @ nl # rest) = starts_with needle s"
  by (induction needle s rule: starts_with.induct) auto

lemma find_after_append_nl:
  assumes "nl \<notin> set needle" "needle \<noteq> []"
  shows "find_after needle (s @ nl # rest) =
           (case find_after needle s of
              Some r \<Rightarrow> Some (r @ nl # rest)
            | None \<Rightarrow> find_after needle rest)"
proof (induction s)
  case Nil
  obtain p ps where needle: "needle = p # ps"
    using assms(2) by (cases needle) auto
  with assms(1) have "\<not> starts_with needle (nl # rest)"
    by auto
  then show ?case
    using assms(2) by simp
next
  case (Cons c s)
  have sw: "starts_with needle (c # s @ nl # rest) = starts_with needle (c # s)"
    using starts_with_append_nl [OF assms(1), of "c # s" rest] by simp
  show ?case
  proof (cases "starts_with needle (c # s)")
    case True
    then have "length needle \<le> length (c # s)"
      by (rule starts_with_length)
    then have "length needle - length (c # s) = 0"
      by simp
    then have "drop (length needle) ((c # s) @ nl # rest) = drop (length needle) (c # s) @ nl # rest"
      unfolding drop_append by simp
    with True sw show ?thesis by simp
  next
    case False
    with sw Cons.IH show ?thesis by simp
  qed
qed

lemma find_after_lines_Cons:
  assumes "CHR 0x0A \<notin> set needle" "needle \<noteq> []"
  shows "find_after needle (text_of_lines (l # ls)) =
           (case find_after needle l of
              Some r \<Rightarrow> Some (r @ CHR 0x0A # text_of_lines ls)
            | None \<Rightarrow> find_after needle (text_of_lines ls))"
  using find_after_append_nl [OF assms, of l "text_of_lines ls"]
  by (simp add: text_of_lines_def)

lemma find_after_lines_none:
  assumes "CHR 0x0A \<notin> set needle" "needle \<noteq> []"
  shows "\<forall>l \<in> set ls. \<not> mentions needle l \<Longrightarrow> find_after needle (text_of_lines ls) = None"
proof (induction ls)
  case Nil
  then show ?case using assms(2) by (simp add: text_of_lines_def)
next
  case (Cons l ls)
  then show ?case
    by (simp add: find_after_lines_Cons [OF assms] mentions_def)
qed

lemma find_after_lines_first:
  assumes "CHR 0x0A \<notin> set needle" "needle \<noteq> []"
    and "\<forall>l \<in> set pre. \<not> mentions needle l"
    and "find_after needle line = Some r"
  shows "find_after needle (text_of_lines (pre @ line # post)) =
           Some (r @ CHR 0x0A # text_of_lines post)"
  using assms(3)
proof (induction pre)
  case Nil
  then show ?case
    by (simp add: find_after_lines_Cons [OF assms(1,2)] assms(4))
next
  case (Cons l pre)
  then show ?case
    by (simp add: find_after_lines_Cons [OF assms(1,2)] mentions_def)
qed

lemma takeWhile_word:
  assumes "\<forall>c \<in> set w. is_word_char c" "\<not> is_word_char d"
  shows "takeWhile is_word_char (w @ d # rest) = w"
  using assms by (simp add: takeWhile_append2)

lemma running_word: "\<forall>c \<in> set ''RUNNING''. is_word_char c"
  by (simp add: is_word_char_def word_chars_def)

lemma nl_not_word: "\<not> is_word_char (CHR 0x0A)"
  by (simp add: is_word_char_def word_chars_def)

text \<open>
  C5. A status text in which no line is the unknown-job message, and whose first line with a
  \<^verbatim>\<open>JobState=\<close> field reads \<^verbatim>\<open>JobState=RUNNING\<close>, is parsed to \<^verbatim>\<open>RUNNING\<close>, which the
  dictionary classifies as \<^verbatim>\<open>running\<close> (a state in which the job is polled again). The
  message \<^verbatim>\<open>slurm_load_jobs error: Invalid job id specified\<close> is parsed to \<^verbatim>\<open>ERROR\<close>,
  classified as \<^verbatim>\<open>error\<close>, a state that ends the polling.
\<close>

theorem slurm_status_parsing:
  "((\<forall>l \<in> set (pre @ line # post). \<not> mentions ''Invalid job id specified'' l) \<and>
    (\<forall>l \<in> set pre. \<not> mentions ''JobState='' l) \<and>
    find_after ''JobState='' line = Some (''RUNNING'' @ rest) \<and>
    (rest = [] \<or> \<not> is_word_char (hd rest)) \<longrightarrow>
      extract_slurm_status (text_of_lines (pre @ line # post)) = Inr ''RUNNING'') \<and>
   map_of JOB_STATUS_DIC ''RUNNING'' = Some ''running'' \<and>
   polls_again ''running'' \<and>
   extract_slurm_status slurm_scontrol_wrongjobid = Inr ''ERROR'' \<and>
   map_of JOB_STATUS_DIC ''ERROR'' = Some ''error'' \<and>
   \<not> polls_again ''error''"
proof (intro conjI impI)
  assume a: "(\<forall>l \<in> set (pre @ line # post). \<not> mentions ''Invalid job id specified'' l) \<and>
    (\<forall>l \<in> set pre. \<not> mentions ''JobState='' l) \<and>
    find_after ''JobState='' line = Some (''RUNNING'' @ rest) \<and>
    (rest = [] \<or> \<not> is_word_char (hd rest))"
  have inv: "find_after ''Invalid job id specified'' (text_of_lines (pre @ line # post)) = None"
    by (rule find_after_lines_none) (use a in simp_all)
  have js: "find_after ''JobState='' (text_of_lines (pre @ line # post)) =
              Some ((''RUNNING'' @ rest) @ CHR 0x0A # text_of_lines post)"
    by (rule find_after_lines_first) (use a in simp_all)
  obtain d more where dm: "rest @ CHR 0x0A # text_of_lines post = d # more" "\<not> is_word_char d"
    using a nl_not_word by (cases rest) auto
  have "takeWhile is_word_char (''RUNNING'' @ d # more) = ''RUNNING''"
    using running_word dm(2) by (rule takeWhile_word)
  then have "takeWhile is_word_char ((''RUNNING'' @ rest) @ CHR 0x0A # text_of_lines post) = ''RUNNING''"
    using dm(1) by simp
  then show "extract_slurm_status (text_of_lines (pre @ line # post)) = Inr ''RUNNING''"
    by (simp add: extract_slurm_status_def inv js)
next
  show "extract_slurm_status slurm_scontrol_wrongjobid = Inr ''ERROR''"
    by code_simp
qed (simp_all add: JOB_STATUS_DIC_def polls_again_def)

lemma scontrol_no_error_line:
  "\<forall>l \<in> set (scontrol_head @ scontrol_state_line # scontrol_tail).
     \<not> mentions ''Invalid job id specified'' l"
  by code_simp

lemma scontrol_head_no_state: "\<forall>l \<in> set scontrol_head. \<not> mentions ''JobState='' l"
  by code_simp

lemma scontrol_state_line_field:
  "find_after ''JobState='' scontrol_state_line = Some (''RUNNING'' @ '' Reason=None Dependency=(null)'')"
  by code_simp

theorem slurm_status_parsing_witness:
  "extract_slurm_status slurm_scontrol_terminated_jobid = Inr ''RUNNING''"
proof -
  have "\<not> is_word_char (hd '' Reason=None Dependency=(null)'')"
    by code_simp
  then show ?thesis
    using slurm_status_parsing [of scontrol_head scontrol_state_line scontrol_tail
        "'' Reason=None Dependency=(null)''"]
      scontrol_no_error_line scontrol_head_no_state scontrol_state_line_field
    unfolding slurm_scontrol_terminated_jobid_def by blast
qed

section \<open>The configuration loader\<close>

lemma digit_char_cases:
  "d < 10 \<Longrightarrow> digit_char d \<in> set ''0123456789''"
  unfolding digit_char_def by (rule nth_mem) simp

lemma digit_char_inj:
  assumes "a < 10" "b < 10" "digit_char a = digit_char b"
  shows "a = b"
proof -
  have d: "distinct ''0123456789''" by simp
  have l: "length ''0123456789'' = 10" by simp
  from assms show ?thesis
    unfolding digit_char_def using nth_eq_iff_index_eq [OF d, of a b] l by simp
qed

lemma str_nat_digits: "set (str_nat n) \<subseteq> set ''0123456789''"
proof (induction n rule: str_nat.induct)
  case (1 n)
  show ?case
  proof (cases "n < 10")
    case True
    then show ?thesis
      using digit_char_cases [of n] by (subst str_nat.simps) simp
  next
    case False
    have "n mod 10 < 10" by simp
    then have "digit_char (n mod 10) \<in> set ''0123456789''"
      by (rule digit_char_cases)
    with False 1 show ?thesis
      by (subst str_nat.simps) simp
  qed
qed

lemma str_nat_nonempty: "str_nat n \<noteq> []"
  by (subst str_nat.simps) simp

lemma str_nat_no_dot: "CHR ''.'' \<notin> set (str_nat n)"
proof -
  have "CHR ''.'' \<notin> set ''0123456789''" by simp
  with str_nat_digits [of n] show ?thesis by blast
qed

lemma str_nat_inj: "str_nat n = str_nat m \<Longrightarrow> n = m"
proof (induction n arbitrary: m rule: str_nat.induct)
  case (1 n)
  show ?case
  proof (cases "n < 10")
    case n: True
    show ?thesis
    proof (cases "m < 10")
      case True
      with n 1(2) show ?thesis
        by (simp add: str_nat.simps [of n] str_nat.simps [of m] digit_char_inj)
    next
      case False
      with n 1(2) str_nat_nonempty [of "m div 10"] show ?thesis
        by (simp add: str_nat.simps [of n] str_nat.simps [of m])
    qed
  next
    case n: False
    show ?thesis
    proof (cases "m < 10")
      case True
      with n 1(2) str_nat_nonempty [of "n div 10"] show ?thesis
        by (simp add: str_nat.simps [of n] str_nat.simps [of m])
    next
      case False
      with n 1(2) have eq: "str_nat (n div 10) = str_nat (m div 10)"
        "digit_char (n mod 10) = digit_char (m mod 10)"
        by (simp_all add: str_nat.simps [of n] str_nat.simps [of m])
      from eq(1) have "n div 10 = m div 10"
        using 1(1) n by simp
      moreover from eq(2) have "n mod 10 = m mod 10"
        by (simp add: digit_char_inj)
      ultimately show ?thesis
        by (metis div_mult_mod_eq)
    qed
  qed
qed

lemma dot_not_word: "\<not> is_word_char (CHR ''.'')"
  by (simp add: is_word_char_def word_chars_def)

lemma ident_no_dot: "ident s \<Longrightarrow> CHR ''.'' \<notin> set s"
  using dot_not_word by (auto simp: ident_def list_all_iff)

lemma inst_key_has_dot: "CHR ''.'' \<in> set (inst_key name n)"
  by (simp add: inst_key_def)

lemma split_at_dot:
  assumes "CHR ''.'' \<notin> set a" "CHR ''.'' \<notin> set b" "a @ CHR ''.'' # x = b @ CHR ''.'' # y"
  shows "a = b \<and> x = y"
proof -
  have tw: "takeWhile (\<lambda>c. c \<noteq> CHR ''.'') (s @ CHR ''.'' # z) = s" if "CHR ''.'' \<notin> set s" for s z
    using that by (induction s) auto
  have "a = b"
    using tw [OF assms(1), of x] tw [OF assms(2), of y] assms(3) by simp
  with assms(3) show ?thesis by simp
qed

lemma inst_key_inj:
  assumes "ident g" "ident h" "inst_key g m = inst_key h n"
  shows "g = h \<and> m = n"
  using split_at_dot [OF ident_no_dot [OF assms(1)] ident_no_dot [OF assms(2)], of "str_nat m" "str_nat n"]
    assms(3) str_nat_inj
  by (auto simp: inst_key_def)

lemma inst_key_not_ident: "ident k \<Longrightarrow> k \<noteq> inst_key name n"
  using ident_no_dot inst_key_has_dot by metis

lemma section_keys_shape: "section_keys t = map fst (filter snd (shape t))"
  by (induction t) (simp_all add: section_keys_def shape_def)

lemma keys_shape: "map fst (shape t) = map fst t"
  by (simp add: shape_def)

lemma shape_update_new:
  "k \<notin> fst ` set t \<Longrightarrow> shape (AList.update k nd t) = shape t @ [(k, is_section nd)]"
  by (induction t) (auto simp: shape_def)

lemma shape_update_same:
  "distinct (map fst t) \<Longrightarrow> (k, is_section nd) \<in> set (shape t) \<Longrightarrow>
   shape (AList.update k nd t) = shape t"
proof (induction t)
  case Nil
  then show ?case by (simp add: shape_def)
next
  case (Cons e t)
  show ?case
  proof (cases "fst e = k")
    case True
    with Cons.prems have "is_section (snd e) = is_section nd"
      by (force simp: shape_def)
    with True show ?thesis
      by (cases e) (simp add: shape_def)
  next
    case False
    with Cons show ?thesis
      by (cases e) (auto simp: shape_def)
  qed
qed

lemma modify_at_Cons:
  "modify_at (k # ks) f t = AList.update k (Section (modify_at ks f (case map_of t k of Some (Section sub) \<Rightarrow> sub | _ \<Rightarrow> []))) t"
  by simp

lemma good_start: "good start"
  by (auto simp: good_def start_def shape_def sect_ok_def leaf_ok_def inst_ok_def names_ok_def)

lemma good_fresh_key:
  assumes "good st" "ident name"
  shows "inst_key name (counter st name + 1) \<notin> fst ` set (tree st)"
proof
  assume "inst_key name (counter st name + 1) \<in> fst ` set (tree st)"
  then obtain b where mem: "(inst_key name (counter st name + 1), b) \<in> set (shape (tree st))"
    by (force simp: shape_def)
  show False
  proof (cases b)
    case True
    with mem have "(inst_key name (counter st name + 1), True) \<in> set (shape (tree st))"
      by simp
    with assms(1) obtain g m where
      gm: "inst_key name (counter st name + 1) = inst_key g m" "ident g" "m \<le> counter st g"
      unfolding good_def sect_ok_def by blast
    from inst_key_inj [OF assms(2) gm(2) gm(1)] gm(3) show False by auto
  next
    case False
    with mem have "(inst_key name (counter st name + 1), False) \<in> set (shape (tree st))"
      by simp
    with assms(1) have "ident (inst_key name (counter st name + 1))"
      unfolding good_def leaf_ok_def by blast
    then show False
      using inst_key_not_ident by blast
  qed
qed

lemma step_Main_good:
  assumes "good st" "ident name"
  shows "\<exists>st'. step (Main name) st = Inr st' \<and> good st' \<and>
           shape (tree st') = shape (tree st) @ [(inst_key name (counter st name + 1), True)] \<and>
           counter st' = (counter st)(name := counter st name + 1)"
proof -
  let ?K = "inst_key name (counter st name + 1)"
  let ?c' = "(counter st)(name := counter st name + 1)"
  let ?st' = "\<lparr>tree = AList.update ?K (Section []) (tree st), counter = ?c', current = [?K]\<rparr>"
  let ?sh = "shape (tree st)"
  have fresh: "?K \<notin> fst ` set (tree st)"
    by (rule good_fresh_key [OF assms])
  have sh0: "shape (AList.update ?K (Section []) (tree st)) = ?sh @ [(?K, True)]"
    using shape_update_new [OF fresh, of "Section []"] by (simp add: is_section_def)
  have t: "tree ?st' = AList.update ?K (Section []) (tree st)" "counter ?st' = ?c'"
    "current ?st' = [?K]"
    by simp_all
  have sh: "shape (tree ?st') = ?sh @ [(?K, True)]"
    unfolding t by (rule sh0)
  have d: "distinct (map fst (AList.update ?K (Section []) (tree st)))"
    using assms(1) by (simp add: good_def distinct_update)
  have mono: "m \<le> counter st g \<Longrightarrow> m \<le> ?c' g" for m g
    by auto
  have s: "sect_ok ?c' (?sh @ [(?K, True)])"
    unfolding sect_ok_def
  proof (intro allI impI)
    fix k assume "(k, True) \<in> set (?sh @ [(?K, True)])"
    then consider "(k, True) \<in> set ?sh" | "k = ?K"
      by auto
    then show "\<exists>g m. k = inst_key g m \<and> ident g \<and> 0 < m \<and> m \<le> ?c' g"
    proof cases
      case 1
      with assms(1) obtain g m where "k = inst_key g m" "ident g" "0 < m" "m \<le> counter st g"
        unfolding good_def sect_ok_def by blast
      with mono [of m g] show ?thesis by blast
    next
      case 2
      with assms(2) have "k = inst_key name (counter st name + 1) \<and> ident name \<and>
          0 < counter st name + 1 \<and> counter st name + 1 \<le> ?c' name"
        by simp
      then show ?thesis
        by (intro exI [of _ name] exI [of _ "counter st name + 1"])
    qed
  qed
  have l: "leaf_ok (?sh @ [(?K, True)])"
    using assms(1) by (simp add: good_def leaf_ok_def)
  have i: "inst_ok ?c' (?sh @ [(?K, True)])"
    unfolding inst_ok_def
  proof (intro allI impI)
    fix g m assume gm: "0 < m \<and> m \<le> ?c' g"
    show "(inst_key g m, True) \<in> set (?sh @ [(?K, True)])"
    proof (cases "g = name \<and> m = counter st name + 1")
      case True
      then show ?thesis by simp
    next
      case False
      with gm have "0 < m \<and> m \<le> counter st g"
        by (auto split: if_splits)
      with assms(1) have "(inst_key g m, True) \<in> set ?sh"
        unfolding good_def inst_ok_def by blast
      then show ?thesis by simp
    qed
  qed
  have n: "names_ok ?c'"
    using assms by (simp add: good_def names_ok_def)
  have "good ?st'"
    unfolding good_def t sh0 using d s l i n by simp
  moreover have "step (Main name) st = Inr ?st'"
    by (simp add: Let_def)
  ultimately show ?thesis
    using sh t(2) by blast
qed

lemma good_same_shape:
  assumes "good st" "shape t' = shape (tree st)" "(hd cur, True) \<in> set (shape (tree st))"
  shows "good (st\<lparr>tree := t', current := cur\<rparr>)"
proof -
  have "map fst t' = map fst (tree st)"
    using assms(2) keys_shape by metis
  with assms show ?thesis
    by (simp add: good_def)
qed

lemma step_Sub_good:
  assumes "good st" "step (Sub name subs) st = Inr st'"
  shows "good st' \<and> shape (tree st') = shape (tree st) \<and> counter st' = counter st"
proof -
  let ?K = "inst_key name (counter st name)"
  from assms(2) have c: "0 < counter st name"
    by (auto split: if_splits)
  with assms(1) have mem: "(?K, True) \<in> set (shape (tree st))"
    unfolding good_def inst_ok_def by blast
  from assms(2) c have st': "st' = st\<lparr>tree := modify_at (?K # subs) (\<lambda>t. t) (tree st), current := ?K # subs\<rparr>"
    by (auto simp: Let_def)
  have d: "distinct (map fst (tree st))"
    using assms(1) by (simp add: good_def)
  have sh: "shape (modify_at (?K # subs) (\<lambda>t. t) (tree st)) = shape (tree st)"
    unfolding modify_at_Cons
    by (rule shape_update_same [OF d]) (use mem in \<open>simp add: is_section_def\<close>)
  have "good st'"
    unfolding st' by (rule good_same_shape [OF assms(1) sh]) (use mem in simp)
  then show ?thesis
    using sh by (simp add: st')
qed

lemma step_KV_good:
  assumes "good st" "ident key"
  shows "\<exists>st'. step (KV key v) st = Inr st' \<and> good st' \<and>
           filter snd (shape (tree st')) = filter snd (shape (tree st)) \<and> counter st' = counter st"
proof (cases "current st")
  case Nil
  let ?t' = "AList.update key (Leaf v) (tree st)"
  have st': "step (KV key v) st = Inr (st\<lparr>tree := ?t'\<rparr>)"
    using Nil by simp
  have d: "distinct (map fst (tree st))"
    using assms(1) by (simp add: good_def)
  have notsec: "(key, True) \<notin> set (shape (tree st))"
  proof
    assume "(key, True) \<in> set (shape (tree st))"
    with assms(1) obtain g m where "key = inst_key g m"
      unfolding good_def sect_ok_def by blast
    with assms(2) show False using inst_key_not_ident by blast
  qed
  have sh: "shape ?t' = shape (tree st) \<or> shape ?t' = shape (tree st) @ [(key, False)]"
  proof (cases "key \<in> fst ` set (tree st)")
    case True
    then obtain b where "(key, b) \<in> set (shape (tree st))"
      by (force simp: shape_def)
    with notsec have "(key, is_section (Leaf v)) \<in> set (shape (tree st))"
      by (cases b) (simp_all add: is_section_def)
    then show ?thesis
      using shape_update_same [OF d] by blast
  next
    case False
    then show ?thesis
      using shape_update_new [of key "tree st" "Leaf v"] by (simp add: is_section_def)
  qed
  have d': "distinct (map fst ?t')"
    using d by (simp add: distinct_update)
  have g: "good (st\<lparr>tree := ?t'\<rparr>)"
    using sh
  proof
    assume "shape ?t' = shape (tree st)"
    with assms(1) Nil d' show ?thesis
      by (simp add: good_def)
  next
    assume a: "shape ?t' = shape (tree st) @ [(key, False)]"
    with assms Nil d' show ?thesis
      by (auto simp: good_def sect_ok_def leaf_ok_def inst_ok_def)
  qed
  from sh have "filter snd (shape ?t') = filter snd (shape (tree st))"
    by auto
  with st' g show ?thesis by simp
next
  case (Cons K rel)
  let ?t' = "modify_at (K # rel) (AList.update key (Leaf v)) (tree st)"
  have st': "step (KV key v) st = Inr (st\<lparr>tree := ?t'\<rparr>)"
    using Cons by simp
  have mem: "(K, True) \<in> set (shape (tree st))"
    using assms(1) Cons by (simp add: good_def)
  have d: "distinct (map fst (tree st))"
    using assms(1) by (simp add: good_def)
  have sh: "shape ?t' = shape (tree st)"
    unfolding modify_at_Cons
    by (rule shape_update_same [OF d]) (use mem in \<open>simp add: is_section_def\<close>)
  have "good (st\<lparr>tree := ?t', current := K # rel\<rparr>)"
    by (rule good_same_shape [OF assms(1) sh]) (use mem in simp)
  moreover have "st\<lparr>tree := ?t', current := K # rel\<rparr> = st\<lparr>tree := ?t'\<rparr>"
    using Cons by simp
  ultimately show ?thesis
    using st' sh by simp
qed

lemma section_keys_append_shape:
  "shape t' = shape t @ [(k, True)] \<Longrightarrow> section_keys t' = section_keys t @ [k]"
  by (simp add: section_keys_shape)

lemma section_keys_same:
  "filter snd (shape t') = filter snd (shape t) \<Longrightarrow> section_keys t' = section_keys t"
  by (simp add: section_keys_shape)

lemma numbered_Cons:
  "numbered (name # names) seen =
     inst_key name (seen name + 1) # numbered names (seen(name := seen name + 1))"
  by (simp add: numbered_def)

lemma step_effect:
  assumes "good st" "wf_line l" "step l st = Inr st1"
  shows "good st1 \<and>
         section_keys (tree st1) = section_keys (tree st) @ numbered (main_names [l]) (counter st) \<and>
         (\<forall>g. counter st1 g = counter st g + count_list (main_names [l]) g)"
proof (cases l)
  case (Main name)
  with assms(2) have "ident name" by simp
  from step_Main_good [OF assms(1) this] obtain st' where
    s: "step (Main name) st = Inr st'" and g1: "good st'"
    and sh: "shape (tree st') = shape (tree st) @ [(inst_key name (counter st name + 1), True)]"
    and c1: "counter st' = (counter st)(name := counter st name + 1)"
    by blast
  from s assms(3) Main have eq: "st' = st1" by simp
  have k1: "section_keys (tree st') = section_keys (tree st) @ [inst_key name (counter st name + 1)]"
    using sh by (rule section_keys_append_shape)
  have "numbered (main_names [l]) (counter st) = [inst_key name (counter st name + 1)]"
    by (simp add: Main numbered_def)
  moreover have "\<forall>g. counter st' g = counter st g + count_list (main_names [l]) g"
    by (simp add: Main c1)
  ultimately show ?thesis
    using g1 k1 eq by simp
next
  case (Sub name subs)
  from step_Sub_good [OF assms(1)] assms(3) Sub
  have "good st1" "shape (tree st1) = shape (tree st)" "counter st1 = counter st"
    by blast+
  then show ?thesis
    by (simp add: Sub section_keys_shape numbered_def)
next
  case (KV key v)
  with assms(2) have "ident key" by simp
  from step_KV_good [OF assms(1) this, of v] obtain st' where
    s: "step (KV key v) st = Inr st'" and g1: "good st'"
    and sh: "filter snd (shape (tree st')) = filter snd (shape (tree st))"
    and c1: "counter st' = counter st"
    by blast
  from s assms(3) KV have eq: "st' = st1" by simp
  from section_keys_same [OF sh] g1 c1 eq show ?thesis
    by (simp add: KV numbered_def)
qed

lemma main_names_Cons: "main_names (l # ls) = main_names [l] @ main_names ls"
  by (cases l) simp_all

lemma numbered_step:
  assumes "\<forall>g. c1 g = c g + count_list (main_names [l]) g"
  shows "numbered (main_names (l # ls)) c = numbered (main_names [l]) c @ numbered (main_names ls) c1"
proof (cases l)
  case (Main name)
  have "c1 = c(name := c name + 1)"
    using assms by (auto simp: Main)
  then show ?thesis
    by (simp add: Main numbered_Cons numbered_def)
next
  case (Sub name subs)
  have "c1 = c" using assms by (auto simp: Sub)
  then show ?thesis by (simp add: Sub numbered_def)
next
  case (KV key v)
  have "c1 = c" using assms by (auto simp: KV)
  then show ?thesis by (simp add: KV numbered_def)
qed

lemma run_lines_keys:
  "good st \<Longrightarrow> list_all wf_line ls \<Longrightarrow> run_lines ls st = Inr st' \<Longrightarrow>
   good st' \<and>
   section_keys (tree st') = section_keys (tree st) @ numbered (main_names ls) (counter st) \<and>
   (\<forall>g. counter st' g = counter st g + count_list (main_names ls) g)"
proof (induction ls arbitrary: st)
  case Nil
  then show ?case by (simp add: numbered_def)
next
  case (Cons l ls)
  from Cons.prems(3) obtain st1 where st1: "step l st = Inr st1" and rest: "run_lines ls st1 = Inr st'"
    by (cases "step l st") simp_all
  from Cons.prems(2) have wf: "wf_line l" "list_all wf_line ls"
    by simp_all
  from step_effect [OF Cons.prems(1) wf(1) st1]
  have g1: "good st1"
    and k1: "section_keys (tree st1) = section_keys (tree st) @ numbered (main_names [l]) (counter st)"
    and c1: "\<forall>g. counter st1 g = counter st g + count_list (main_names [l]) g"
    by blast+
  from Cons.IH [OF g1 wf(2) rest]
  have g': "good st'"
    and k': "section_keys (tree st') = section_keys (tree st1) @ numbered (main_names ls) (counter st1)"
    and c': "\<forall>g. counter st' g = counter st1 g + count_list (main_names ls) g"
    by blast+
  have "section_keys (tree st') =
          section_keys (tree st) @ numbered (main_names [l]) (counter st)
            @ numbered (main_names ls) (counter st1)"
    using k' k1 by simp
  also have "numbered (main_names [l]) (counter st) @ numbered (main_names ls) (counter st1) =
          numbered (main_names (l # ls)) (counter st)"
    by (rule numbered_step [OF c1, symmetric])
  finally have "section_keys (tree st') =
          section_keys (tree st) @ numbered (main_names (l # ls)) (counter st)" .
  moreover have "counter st' g = counter st g + count_list (main_names (l # ls)) g" for g
  proof -
    have "counter st' g = counter st1 g + count_list (main_names ls) g"
      using c' by blast
    also have "counter st1 g = counter st g + count_list (main_names [l]) g"
      using c1 by blast
    finally show ?thesis
      unfolding main_names_Cons [of l ls] by simp
  qed
  ultimately show ?case
    using g' by blast
qed

lemma occurrences_bounds:
  "(h, i) \<in> set (occurrences names seen) \<Longrightarrow> seen h < i \<and> i \<le> seen h + count_list names h"
proof (induction names arbitrary: seen)
  case Nil
  then show ?case by simp
next
  case (Cons name names)
  from Cons.prems consider "h = name \<and> i = seen name + 1"
    | "(h, i) \<in> set (occurrences names (seen(name := seen name + 1)))"
    by auto
  then show ?case
  proof cases
    case 1
    then show ?thesis by simp
  next
    case 2
    from Cons.IH [OF this] show ?thesis
      by (auto split: if_splits)
  qed
qed

lemma str_nat_1: "str_nat 1 = ''1''"
  by (simp add: str_nat.simps digit_char_def)

lemma bare_name_inst_key: "bare_name (inst_key h i) = (if i = 1 then Some h else None)"
proof -
  obtain d ds where d: "str_nat i = d # ds"
    using str_nat_nonempty [of i] by (cases "str_nat i") auto
  show ?thesis
  proof (cases ds rule: rev_cases)
    case Nil
    have key: "inst_key h i = h @ [CHR ''.'', d]"
      by (simp add: inst_key_def d Nil)
    have "(d = CHR ''1'') = (i = 1)"
    proof
      assume "d = CHR ''1''"
      then have "str_nat i = str_nat 1"
        using d Nil str_nat_1 by simp
      then show "i = 1" by (rule str_nat_inj)
    next
      assume "i = 1"
      then show "d = CHR ''1''"
        using d str_nat_1 by simp
    qed
    then show ?thesis
      unfolding bare_name_def key by simp
  next
    case (snoc ds' y)
    let ?x = "last (d # ds')"
    have x: "?x \<in> set (str_nat i)"
      using d snoc by auto
    then have xdot: "?x \<noteq> CHR ''.''"
      using str_nat_no_dot [of i] by metis
    have "d # ds' = butlast (d # ds') @ [?x]"
      by simp
    then have key: "inst_key h i = (h @ ''.'' @ butlast (d # ds')) @ [?x, y]"
      unfolding inst_key_def d snoc by (metis append.assoc append_Cons append_Nil)
    have "str_nat i \<noteq> str_nat 1"
      unfolding str_nat_1 using d snoc by auto
    then have "i \<noteq> 1" by auto
    moreover have "drop (length (inst_key h i) - 2) (inst_key h i) = [?x, y]"
      unfolding key by simp
    ultimately show ?thesis
      using xdot by (simp add: bare_name_def)
  qed
qed

lemma section_keys_finish:
  "section_keys (finish st) = map (rename (counter st)) (section_keys (tree st))"
proof -
  have "section_keys (map (\<lambda>entry. (final_key c entry, snd entry)) t) = map (rename c) (section_keys t)"
    for c t
  proof (induction t)
    case Nil
    then show ?case by (simp add: section_keys_def)
  next
    case (Cons e t)
    obtain k nd where e: "e = (k, nd)" by (cases e)
    show ?case
      using Cons
      by (cases nd) (simp_all add: e section_keys_def is_section_def final_key_def rename_def)
  qed
  then show ?thesis
    by (simp add: finish_def)
qed

lemma read_lines_section_keys:
  assumes "list_all wf_line ls" "read_lines ls = Inr t"
  shows "section_keys t =
           map (\<lambda>(h, i). if count_list (main_names ls) h = 1 then h else inst_key h i)
               (occurrences (main_names ls) (\<lambda>name. 0))"
proof -
  let ?occ = "occurrences (main_names ls) (\<lambda>name. 0)"
  from assms(2) obtain st where run: "run_lines ls start = Inr st" and t: "t = finish st"
    by (cases "run_lines ls start") (simp_all add: read_lines_def)
  have s0: "section_keys (tree start) = []" "counter start = (\<lambda>name. 0)"
    by (simp_all add: start_def section_keys_def)
  from run_lines_keys [OF good_start assms(1) run]
  have keys: "section_keys (tree st) = map (\<lambda>(h, i). inst_key h i) ?occ"
    and cnt: "\<forall>g. counter st g = count_list (main_names ls) g"
    unfolding s0 numbered_def by simp_all
  have one: "rename (counter st) (inst_key h i) =
          (if count_list (main_names ls) h = 1 then h else inst_key h i)"
    if "(h, i) \<in> set ?occ" for h i
  proof -
    from occurrences_bounds [OF that] have b: "0 < i" "i \<le> count_list (main_names ls) h"
      by simp_all
    have c: "counter st h = count_list (main_names ls) h"
      using cnt by blast
    show ?thesis
    proof (cases "i = 1")
      case True
      then show ?thesis
        by (simp add: rename_def bare_name_inst_key c)
    next
      case False
      with b have "count_list (main_names ls) h \<noteq> 1" by simp
      with False show ?thesis
        by (simp add: rename_def bare_name_inst_key)
    qed
  qed
  have "map (rename (counter st)) (map (\<lambda>(h, i). inst_key h i) ?occ) =
        map (\<lambda>(h, i). if count_list (main_names ls) h = 1 then h else inst_key h i) ?occ"
    unfolding map_map
  proof (rule map_cong [OF refl])
    fix e assume e: "e \<in> set ?occ"
    obtain h i where hi: "e = (h, i)" by (cases e)
    with e one [of h i] show "(rename (counter st) \<circ> (\<lambda>(h, i). inst_key h i)) e =
        (case e of (h, i) \<Rightarrow> if count_list (main_names ls) h = 1 then h else inst_key h i)"
      by simp
  qed
  then show ?thesis
    unfolding t section_keys_finish keys .
qed

lemma all_or_error_Inr:
  "all_or_error rs = Inr xs \<Longrightarrow> rs = map Inr xs"
proof (induction rs arbitrary: xs rule: all_or_error.induct)
  case 1
  then show ?case by simp
next
  case (2 e rs)
  then show ?case by simp
next
  case (3 x rs)
  then show ?case by (auto split: sum.splits)
qed

lemma parse_line_wf:
  assumes "parse_line l = Inr x"
  shows "wf_line x"
proof (cases "l \<noteq> [] \<and> hd l = CHR ''[''")
  case True
  define segments where "segments = split_on (CHR ''.'') (butlast (tl l))"
  have ok: "list_all ident segments"
    and res: "(case segments of
                 [] \<Rightarrow> Inl (ConfigSyntaxError l)
               | [name] \<Rightarrow> Inr (Main name)
               | name # subs \<Rightarrow> Inr (Sub name subs)) = Inr x"
    using assms True unfolding parse_line_def Let_def segments_def
    by (simp_all split: if_splits)
  show ?thesis
  proof (cases segments)
    case Nil
    with res show ?thesis by simp
  next
    case (Cons name subs)
    with res ok show ?thesis
      by (cases subs) auto
  qed
next
  case False
  define key where "key = strip (takeWhile (\<lambda>c. c \<noteq> CHR ''='') l)"
  define rhs where "rhs = dropWhile (\<lambda>c. c \<noteq> CHR ''='') l"
  have "(if rhs \<noteq> [] \<and> ident key then
              (case parse_value (strip (tl rhs)) of
                 Inl e \<Rightarrow> Inl e
               | Inr v \<Rightarrow> Inr (KV key v))
            else Inl (ConfigSyntaxError l)) = Inr x"
    using assms False unfolding parse_line_def Let_def key_def rhs_def
    by (simp split: if_splits)
  then show ?thesis
    by (auto split: if_splits sum.splits)
qed

lemma scan_wf: "scan text = Inr ls \<Longrightarrow> list_all wf_line ls"
proof -
  assume "scan text = Inr ls"
  then obtain raw where "all_or_error (map parse_line raw) = Inr ls"
    by (auto simp: scan_def split: sum.splits)
  then have "map parse_line raw = map Inr ls"
    by (rule all_or_error_Inr)
  then have "length raw = length ls \<and> (\<forall>i < length ls. parse_line (raw ! i) = Inr (ls ! i))"
    by (metis length_map nth_map)
  then have "\<forall>x \<in> set ls. \<exists>l. parse_line l = Inr x"
    by (metis in_set_conv_nth)
  then show ?thesis
    using parse_line_wf by (auto simp: list_all_iff)
qed




lemma modify_at_known:
  "map_of t K = Some (Section s) \<Longrightarrow>
   modify_at (K # ks) f t = AList.update K (Section (modify_at ks f s)) t"
  by simp









lemma str_nat_2: "str_nat 2 = ''2''"
  by (simp add: str_nat.simps digit_char_def)




lemma scan_example_3:
  "scan config_example_3 =
     Inr [KV ''val'' (VInt 1), Main ''header'', Sub ''header'' [''d1''],
          KV ''val2'' (VInt 10), KV ''val3'' (VInt 20)]"
  by code_simp

lemma loads_example_3: "loads config_example_3 = Inr config_example_dict_3"
  by code_simp

lemma scan_example_1:
  "scan config_example_1 =
     Inr ([KV ''num1'' (VInt 10), KV ''name'' (VStr ''somestring''),
           KV ''w_vdw_1'' (VFloat 10 1), KV ''w_vdw_0'' (VFloat 1 2), KV ''w_vdw_2'' (VFloat 10 1)]
          @ Main ''headerone''
          # [KV ''name'' (VStr ''theotherstring''), KV ''_list'' (VList [VInt 12, VInt 15]),
             Sub ''headerone'' [''weights''],
             KV ''val'' (VInt 1), KV ''bsa'' (VFloat 1 1), KV ''elec'' (VInt (- 1)),
             KV ''list1'' (VList [VInt 1, VInt 2, VInt 3])]
          @ Main ''headerone''
          # [Sub ''headerone'' [''weights''], KV ''other'' (VInt 50)] @ [])"
  by code_simp

lemma loads_example_1:
  "loads config_example_1 =
     Inr [(''num1'', Leaf (VInt 10)),
          (''name'', Leaf (VStr ''somestring'')),
          (''w_vdw_1'', Leaf (VFloat 10 1)),
          (''w_vdw_0'', Leaf (VFloat 1 2)),
          (''w_vdw_2'', Leaf (VFloat 10 1)),
          (''headerone.1'', Section
             [(''name'', Leaf (VStr ''theotherstring'')),
              (''_list'', Leaf (VList [VInt 12, VInt 15])),
              (''weights'', Section
                 [(''val'', Leaf (VInt 1)),
                  (''bsa'', Leaf (VFloat 1 1)),
                  (''elec'', Leaf (VInt (- 1))),
                  (''list1'', Leaf (VList [VInt 1, VInt 2, VInt 3]))])]),
          (''headerone.2'', Section [(''weights'', Section [(''other'', Leaf (VInt 50))])])]"
  by code_simp

lemma loads_example_2: "loads config_example_2 = Inr config_example_dict_2"
  by code_simp




lemma occurrences_complete:
  "0 < i \<Longrightarrow> i \<le> count_list names h \<Longrightarrow> (h, seen h + i) \<in> set (occurrences names seen)"
proof (induction names arbitrary: seen i)
  case Nil
  then show ?case by simp
next
  case (Cons name names)
  let ?s = "seen(name := seen name + 1)"
  have unf: "occurrences (name # names) seen = (name, seen name + 1) # occurrences names ?s"
    by (simp only: occurrences.simps)
  show ?case
  proof (cases "name = h \<and> i = 1")
    case True
    then show ?thesis
      unfolding unf by simp
  next
    case False
    have "\<exists>j. 0 < j \<and> j \<le> count_list names h \<and> ?s h + j = seen h + i"
    proof (cases "name = h")
      case True
      with False Cons.prems have "0 < i - 1 \<and> i - 1 \<le> count_list names h \<and> ?s h + (i - 1) = seen h + i"
        by simp
      then show ?thesis by blast
    next
      case False
      with Cons.prems have "0 < i \<and> i \<le> count_list names h \<and> ?s h + i = seen h + i"
        by simp
      then show ?thesis by blast
    qed
    then obtain j where j: "0 < j" "j \<le> count_list names h" "?s h + j = seen h + i"
      by blast
    have "(h, ?s h + j) \<in> set (occurrences names ?s)"
      using j(1,2) by (rule Cons.IH)
    then have "(h, seen h + i) \<in> set (occurrences names ?s)"
      unfolding j(3) .
    then show ?thesis
      unfolding unf by (rule list.set_intros(2))
  qed
qed

lemma main_names_ident: "list_all wf_line ls \<Longrightarrow> list_all ident (main_names ls)"
proof (induction ls)
  case Nil
  then show ?case by simp
next
  case (Cons l ls)
  then show ?case by (cases l) simp_all
qed

lemma occurrences_names: "(h, i) \<in> set (occurrences names seen) \<Longrightarrow> h \<in> set names"
  by (induction names arbitrary: seen) auto

text \<open>
  C7, amended. The keys of the top-level sections of the loaded tree are, in order, those of
  the top-level headers of the text: the \<open>i\<close>-th declaration of a name is keyed \<open>name.i\<close>,
  except that a name declared exactly once is keyed by the bare name. So a name declared once
  has the bare key and no \<open>.1\<close> key, and a name declared \<open>n > 1\<close> times has the keys
  \<open>name.1\<close> to \<open>name.n\<close>.
\<close>

theorem loads_section_keys:
  assumes "scan text = Inr ls" "loads text = Inr t"
  shows "section_keys t =
           map (\<lambda>(name, i). if count_list (main_names ls) name = 1 then name else inst_key name i)
               (occurrences (main_names ls) (\<lambda>name. 0)) \<and>
         (count_list (main_names ls) h = 1 \<longrightarrow>
            h \<in> set (section_keys t) \<and> inst_key h 1 \<notin> set (section_keys t)) \<and>
         (1 < count_list (main_names ls) h \<longrightarrow>
            (\<forall>i. 0 < i \<and> i \<le> count_list (main_names ls) h \<longrightarrow> inst_key h i \<in> set (section_keys t)))"
proof -
  let ?names = "main_names ls"
  let ?occ = "occurrences ?names (\<lambda>name. 0)"
  let ?f = "\<lambda>(name, i). if count_list ?names name = 1 then name else inst_key name i"
  have wf: "list_all wf_line ls"
    using assms(1) by (rule scan_wf)
  have rd: "read_lines ls = Inr t"
    using assms by (simp add: loads_def)
  have keys: "section_keys t = map ?f ?occ"
    using wf rd by (rule read_lines_section_keys)
  have idents: "ident g" if "g \<in> set ?names" for g
    using main_names_ident [OF wf] that by (simp add: list_all_iff)
  have once: "h \<in> set (section_keys t) \<and> inst_key h 1 \<notin> set (section_keys t)"
    if c: "count_list ?names h = 1"
  proof
    have "(h, (\<lambda>name. 0) h + 1) \<in> set ?occ"
      by (rule occurrences_complete) (use c in simp_all)
    then have "?f (h, 1) \<in> set (map ?f ?occ)"
      by (metis (no_types, lifting) add_0 image_eqI list.set_map)
    then show "h \<in> set (section_keys t)"
      unfolding keys using c by simp
  next
    have h: "ident h"
    proof (rule idents)
      show "h \<in> set ?names"
        using c by (metis count_list_0_iff zero_neq_one)
    qed
    show "inst_key h 1 \<notin> set (section_keys t)"
    proof
      assume "inst_key h 1 \<in> set (section_keys t)"
      then obtain g j where gj: "(g, j) \<in> set ?occ" "inst_key h 1 = ?f (g, j)"
        unfolding keys by auto
      have g: "ident g"
        using idents occurrences_names [OF gj(1)] by blast
      show False
      proof (cases "count_list ?names g = 1")
        case True
        with gj(2) have "g = inst_key h 1" by simp
        with g show False using inst_key_not_ident by blast
      next
        case False
        with gj(2) have "inst_key h 1 = inst_key g j" by simp
        from inst_key_inj [OF h g this] False c show False by simp
      qed
    qed
  qed
  have more: "inst_key h i \<in> set (section_keys t)"
    if c: "1 < count_list ?names h" and i: "0 < i \<and> i \<le> count_list ?names h" for i
  proof -
    have "(h, (\<lambda>name. 0) h + i) \<in> set ?occ"
      by (rule occurrences_complete) (use i in simp_all)
    then have "?f (h, i) \<in> set (map ?f ?occ)"
      by (metis (no_types, lifting) add_0 image_eqI list.set_map)
    then show ?thesis
      unfolding keys using c by simp
  qed
  from keys once more show ?thesis
    by blast
qed




lemma inst_key_literals:
  "inst_key name 1 = name @ ''.1''" "inst_key name 2 = name @ ''.2''"
  "inst_key name (Suc 0) = name @ ''.1''" "inst_key name (Suc (Suc 0)) = name @ ''.2''"
proof -
  show one: "inst_key name 1 = name @ ''.1''"
    unfolding inst_key_def str_nat_1 by simp
  show "inst_key name (Suc 0) = name @ ''.1''"
    using one by simp
  show two: "inst_key name 2 = name @ ''.2''"
    unfolding inst_key_def str_nat_2 by simp
  from two show "inst_key name (Suc (Suc 0)) = name @ ''.2''"
    by (simp add: numeral_2_eq_2)
qed


text \<open>
  C7, as stated, keys even a name that is declared once with the suffix \<^verbatim>\<open>.1\<close>. The third
  example of \<^verbatim>\<open>test_load\<close> declares \<^verbatim>\<open>[header]\<close> once; the tree that the test expects, and
  that the loader returns, has the key \<^verbatim>\<open>header\<close> and no key \<^verbatim>\<open>header.1\<close>.
\<close>

theorem loads_once_declared_counterexample:
  "loads config_example_3 = Inr config_example_dict_3 \<and>
   map_of config_example_dict_3 ''header'' =
     Some (Section [(''d1'', Section [(''val2'', Leaf (VInt 10)), (''val3'', Leaf (VInt 20))])]) \<and>
   map_of config_example_dict_3 ''header.1'' = None"
  using loads_example_3 by (simp add: config_example_dict_3_def)

theorem loads_section_keys_witness:
  "section_keys config_example_dict_3 = [''header''] \<and>
   ''header'' \<in> set (section_keys config_example_dict_3) \<and>
   ''header.1'' \<notin> set (section_keys config_example_dict_3) \<and>
   (\<exists>t. loads config_example_1 = Inr t \<and> section_keys t = [''headerone.1'', ''headerone.2''])"
proof -
  have c3: "count_list (main_names [KV ''val'' (VInt 1), Main ''header'', Sub ''header'' [''d1''],
          KV ''val2'' (VInt 10), KV ''val3'' (VInt 20)]) ''header'' = 1"
    by simp
  from loads_section_keys [OF scan_example_3 loads_example_3, of "''header''"] c3
  have k3: "section_keys config_example_dict_3 = [''header'']"
    "''header'' \<in> set (section_keys config_example_dict_3)"
    "''header.1'' \<notin> set (section_keys config_example_dict_3)"
    by (simp_all add: inst_key_literals)
  obtain t where t: "loads config_example_1 = Inr t"
    using loads_example_1 by blast
  from loads_section_keys [OF scan_example_1 t, of "''headerone''"]
  have "section_keys t = [''headerone.1'', ''headerone.2'']"
    by (simp add: inst_key_literals)
  with t k3 show ?thesis by blast
qed

text \<open>\<^verbatim>\<open>test_load\<close>: the loader returns the three trees that the repository's test expects.\<close>

lemma test_load:
  "\<exists>r. loads config_example_1 = Inr r \<and> dict_eq r config_example_dict_1"
  "\<exists>r. loads config_example_2 = Inr r \<and> dict_eq r config_example_dict_2"
  "\<exists>r. loads config_example_3 = Inr r \<and> dict_eq r config_example_dict_3"
proof -
  show "\<exists>r. loads config_example_1 = Inr r \<and> dict_eq r config_example_dict_1"
    unfolding loads_example_1 by (simp add: dict_eq_def config_example_dict_1_def)
  show "\<exists>r. loads config_example_2 = Inr r \<and> dict_eq r config_example_dict_2"
    unfolding loads_example_2 by (simp add: dict_eq_def config_example_dict_2_def parse_path_def)
  show "\<exists>r. loads config_example_3 = Inr r \<and> dict_eq r config_example_dict_3"
    unfolding loads_example_3 by (simp add: dict_eq_def config_example_dict_3_def)
qed

section \<open>The alascan step aborts when an output is missing\<close>











end
